theory Spec2Isabelle
  imports Main "HOL-Library.Word" "HOL-Library.Monad_Syntax"
begin

unbundle bit_operations_syntax

section \<open>Data model of merkle\_tree.go\<close>

text \<open>
  A Go byte slice is a list of 8-bit words; a nil slice and an empty slice are both
  \<open>[]\<close> (the code only compares them with \<open>bytes.Equal\<close> and \<open>len\<close>, which do not tell
  them apart). Go's \<open>int\<close> is 64 bits wide; every \<open>int\<close> of this file that is an index,
  a length, a step or a batch size is non-negative and bounded by the length of a slice
  held in memory, so it is a \<open>nat\<close> here. \<open>NumRoutines\<close> and \<open>Mode\<close> come from the caller
  and may be any integer: they are \<open>int\<close>. \<open>Path\<close> is a \<open>uint32\<close>: a 32-bit word.
\<close>

type_synonym byte = "8 word"
type_synonym bytes = "byte list"

text \<open>
  The error values. The first six are the ones this file creates with \<open>errors.New\<close>;
  \<open>SerializeFailed\<close> and \<open>HashFailed\<close> carry the message of an error that a data block's
  \<open>Serialize\<close> or the configured hash function returned, which the code hands on
  unchanged.
\<close>

datatype error =
    ErrInvalidNumOfDataBlocks
  | ErrInvalidConfigMode
  | ErrProofIsNil
  | ErrDataBlockIsNil
  | ErrProofInvalidModeTreeNotBuilt
  | ErrProofInvalidDataBlock
  | SerializeFailed string
  | HashFailed string

text \<open>
  \<open>DataBlock\<close> is an interface with one method, \<open>Serialize() ([]byte, error)\<close>. A
  (non-nil) data block is the result its \<open>Serialize\<close> gives.
\<close>

datatype DataBlock = DataBlock (Serialize: "string + bytes")

type_synonym TypeHashFunc = "bytes \<Rightarrow> string + bytes"

definition ModeProofGen :: int where "ModeProofGen = 0"
definition ModeTreeBuild :: int where "ModeTreeBuild = 1"
definition ModeProofGenAndTreeBuild :: int where "ModeProofGenAndTreeBuild = 2"

record Config =
  concatFunc :: "(bytes \<Rightarrow> bytes \<Rightarrow> bytes) option"
  HashFunc :: "TypeHashFunc option"
  NumRoutines :: int
  Mode :: int
  RunInParallel :: bool
  SortSiblingPairs :: bool
  DisableLeafHashing :: bool

text \<open>\<open>new(Config)\<close>: the zero value.\<close>

definition new_Config :: Config where
  "new_Config = \<lparr>concatFunc = None, HashFunc = None, NumRoutines = 0, Mode = 0,
     RunInParallel = False, SortSiblingPairs = False, DisableLeafHashing = False\<rparr>"

record Proof =
  Siblings :: "bytes list"
  Path :: "32 word"

text \<open>
  The tree. The mutex \<open>leafMapMu\<close> and the worker pool \<open>wp\<close> hold no data of the tree and
  are left out; \<open>leafMap\<close> is a Go map from \<open>string(leaf)\<close> to the leaf's index.
\<close>

record MerkleTree =
  Config :: Config
  leafMap :: "bytes \<rightharpoonup> nat"
  nodes :: "bytes list list"
  Root :: bytes
  Leaves :: "bytes list"
  Proofs :: "Proof list"
  Depth :: nat
  NumLeaves :: nat

text \<open>
  What the file takes from outside: the two default hash functions (defined in another
  file of the package) and \<open>runtime.NumCPU()\<close>.
\<close>

record runtime =
  DefaultHashFunc :: TypeHashFunc
  DefaultHashFuncParallel :: TypeHashFunc
  NumCPU :: int

section \<open>Slices, panics and loops\<close>

text \<open>
  A function of the model returns an \<open>option\<close>: \<open>None\<close> is a run-time panic (an index out
  of range, a call of a nil function, \<open>make\<close> with a negative length) or a loop that does
  not advance; \<open>Some\<close> is a normal return. Errors that the Go code returns are values
  inside \<open>Some\<close>.
\<close>

definition nth_opt :: "'a list \<Rightarrow> nat \<Rightarrow> 'a option" where
  "nth_opt xs i = (if i < length xs then Some (xs ! i) else None)"

definition upd_opt :: "'a list \<Rightarrow> nat \<Rightarrow> 'a \<Rightarrow> 'a list option" where
  "upd_opt xs i v = (if i < length xs then Some (xs[i := v]) else None)"

text \<open>\<open>make([][]byte, n)\<close> and \<open>copy(dst, src)\<close>.\<close>

definition make_slice :: "nat \<Rightarrow> bytes list" where
  "make_slice n = replicate n []"

definition copy_slice :: "'a list \<Rightarrow> 'a list \<Rightarrow> 'a list" where
  "copy_slice dst src = take (length dst) src @ drop (length src) dst"

text \<open>
  The indices \<open>i = start; i < stop; i += stride\<close> of a \<open>for\<close> statement. With a stride of
  0 the Go loop would not advance; the callers give \<open>None\<close> in that case before they ask
  for the indices.
\<close>

function strided :: "nat \<Rightarrow> nat \<Rightarrow> nat \<Rightarrow> nat list" where
  "strided start stop stride =
     (if stride = 0 \<or> stop \<le> start then []
      else start # strided (start + stride) stop stride)"
  by pat_completeness auto
termination
  by (relation "measure (\<lambda>(start, stop, stride). stop - start)") auto

declare strided.simps [simp del]

text \<open>
  A \<open>for\<close> statement over the given indices whose body may panic, or return an error
  (the loop returns at once, with the state reached), or go on.
\<close>

fun for_loop :: "nat list \<Rightarrow> (nat \<Rightarrow> 's \<Rightarrow> ('s \<times> error option) option) \<Rightarrow> 's
    \<Rightarrow> ('s \<times> error option) option" where
  "for_loop [] body s = Some (s, None)"
| "for_loop (i # is) body s =
     (case body i s of
        None \<Rightarrow> None
      | Some (s', Some e) \<Rightarrow> Some (s', Some e)
      | Some (s', None) \<Rightarrow> for_loop is body s')"

text \<open>A \<open>for\<close> statement whose body returns no error.\<close>

fun for_each :: "nat list \<Rightarrow> (nat \<Rightarrow> 's \<Rightarrow> 's option) \<Rightarrow> 's \<Rightarrow> 's option" where
  "for_each [] body s = Some s"
| "for_each (i # is) body s = (case body i s of None \<Rightarrow> None | Some s' \<Rightarrow> for_each is body s')"

text \<open>
  The worker pool (package gool, outside this repository), by its contract: \<open>Map\<close> runs
  the handler once for every argument record and returns the handlers' results in the
  order of submission. The handlers of this file write disjoint slots of the memory they
  share; the model runs them one after the other, in the order of submission, on that
  memory.
\<close>

fun pool_Map :: "('a \<Rightarrow> 's \<Rightarrow> ('s \<times> error option) option) \<Rightarrow> 'a list \<Rightarrow> 's
    \<Rightarrow> ('s \<times> error option list) option" where
  "pool_Map handler [] s = Some (s, [])"
| "pool_Map handler (a # as) s =
     (case handler a s of
        None \<Rightarrow> None
      | Some (s', e) \<Rightarrow>
          (case pool_Map handler as s' of
             None \<Rightarrow> None
           | Some (s'', es) \<Rightarrow> Some (s'', e # es)))"

text \<open>\<open>for _, err = range errList { if err != nil { return } }\<close>: the first error.\<close>

fun first_error :: "error option list \<Rightarrow> error option" where
  "first_error [] = None"
| "first_error (None # es) = first_error es"
| "first_error (Some e # es) = Some e"

text \<open>
  \<open>bits.Len(x)\<close> of the standard library: the number of bits needed to write \<open>x\<close>, and 0
  for \<open>x = 0\<close>.
\<close>

fun bits_Len :: "nat \<Rightarrow> nat" where
  "bits_Len n = (if n = 0 then 0 else Suc (bits_Len (n div 2)))"

declare bits_Len.simps [simp del]

text \<open>
  \<open>bytes.Compare\<close> of the standard library: the lexicographic order of two byte slices,
  as -1, 0 or 1.
\<close>

fun bytes_Compare :: "bytes \<Rightarrow> bytes \<Rightarrow> int" where
  "bytes_Compare [] [] = 0"
| "bytes_Compare [] (y # ys) = - 1"
| "bytes_Compare (x # xs) [] = 1"
| "bytes_Compare (x # xs) (y # ys) =
     (if x < y then - 1 else if y < x then 1 else bytes_Compare xs ys)"

section \<open>Hashing and concatenation\<close>

definition concatHash :: "bytes \<Rightarrow> bytes \<Rightarrow> bytes" where
  "concatHash b1 b2 =
     (let result = replicate (length b1 + length b2) (0 :: byte);
          result = copy_slice result b1
      in take (length b1) result @ copy_slice (drop (length b1) result) b2)"

definition concatSortHash :: "bytes \<Rightarrow> bytes \<Rightarrow> bytes" where
  "concatSortHash b1 b2 =
     (if bytes_Compare b1 b2 < 0 then concatHash b1 b2 else concatHash b2 b1)"

text \<open>
  \<open>m.HashFunc(m.concatFunc(b1, b2))\<close>. Calling a nil function panics. An error of the
  hash function is handed on; the slice returned with an error is taken to be nil.
\<close>

definition hashPair :: "Config \<Rightarrow> bytes \<Rightarrow> bytes \<Rightarrow> (error + bytes) option" where
  "hashPair c b1 b2 =
     (case concatFunc c of
        None \<Rightarrow> None
      | Some cf \<Rightarrow>
          (case HashFunc c of
             None \<Rightarrow> None
           | Some h \<Rightarrow>
               Some (case h (cf b1 b2) of Inl e \<Rightarrow> Inl (HashFailed e) | Inr d \<Rightarrow> Inr d)))"

section \<open>Leaves\<close>

definition leafFromBlock :: "DataBlock \<Rightarrow> Config \<Rightarrow> (error + bytes) option" where
  "leafFromBlock block config =
     (case Serialize block of
        Inl e \<Rightarrow> Some (Inl (SerializeFailed e))
      | Inr blockBytes \<Rightarrow>
          if DisableLeafHashing config
          then Some (Inr (copy_slice (replicate (length blockBytes) 0) blockBytes))
          else (case HashFunc config of
                  None \<Rightarrow> None
                | Some h \<Rightarrow>
                    Some (case h blockBytes of Inl e \<Rightarrow> Inl (HashFailed e) | Inr d \<Rightarrow> Inr d)))"

text \<open>
  The body of the loops of \<open>leafGen\<close> and \<open>leafGenHandler\<close>:
  \<open>if leaves[i], err = leafFromBlock(blocks[i], &m.Config); err != nil { return ... }\<close>.
\<close>

definition leafGen_body :: "Config \<Rightarrow> DataBlock list \<Rightarrow> nat \<Rightarrow> bytes list
    \<Rightarrow> (bytes list \<times> error option) option" where
  "leafGen_body config blocks i leaves =
     do {
       block \<leftarrow> nth_opt blocks i;
       r \<leftarrow> leafFromBlock block config;
       (case r of
          Inl e \<Rightarrow> do { leaves' \<leftarrow> upd_opt leaves i []; Some (leaves', Some e) }
        | Inr leaf \<Rightarrow> do { leaves' \<leftarrow> upd_opt leaves i leaf; Some (leaves', None) })
     }"

text \<open>\<open>leafGen\<close> returns \<open>(leaves, nil)\<close> or \<open>(nil, err)\<close>.\<close>

definition leafGen :: "MerkleTree \<Rightarrow> DataBlock list \<Rightarrow> (bytes list \<times> error option) option" where
  "leafGen m blocks =
     (case for_loop [0 ..< NumLeaves m] (leafGen_body (Config m) blocks)
             (make_slice (NumLeaves m)) of
        None \<Rightarrow> None
      | Some (leaves, Some e) \<Rightarrow> Some ([], Some e)
      | Some (leaves, None) \<Rightarrow> Some (leaves, None))"

text \<open>
  The argument record of the pool's handlers. Its pointer to the tree and the slice that
  a handler writes are the memory the handlers share: the model passes the tree as an
  argument of its own and threads what is written through the handlers as their state.
\<close>

record poolWorkerArgs =
  byteField1 :: "bytes list"
  dataBlockField :: "DataBlock list"
  intField1 :: nat
  intField2 :: nat
  intField3 :: nat
  intField4 :: nat
  intField5 :: nat

definition zero_args :: poolWorkerArgs where
  "zero_args = \<lparr>byteField1 = [], dataBlockField = [], intField1 = 0, intField2 = 0,
     intField3 = 0, intField4 = 0, intField5 = 0\<rparr>"

text \<open>\<open>leafGenHandler\<close>: the state is the slice \<open>leaves\<close> (\<open>arg.byteField1\<close>).\<close>

definition leafGenHandler :: "MerkleTree \<Rightarrow> poolWorkerArgs \<Rightarrow> bytes list
    \<Rightarrow> (bytes list \<times> error option) option" where
  "leafGenHandler mt arg leaves =
     (let blocks = dataBlockField arg;
          start = intField1 arg;
          lenLeaves = intField2 arg;
          numRoutines = intField3 arg
      in if numRoutines = 0 \<and> start < lenLeaves then None
         else for_loop (strided start lenLeaves numRoutines)
                (leafGen_body (Config mt) blocks) leaves)"

definition leafGenParallel :: "MerkleTree \<Rightarrow> DataBlock list
    \<Rightarrow> (bytes list \<times> error option) option" where
  "leafGenParallel m blocks =
     (let lenLeaves = length blocks;
          leaves = make_slice lenLeaves
      in if NumRoutines (Config m) < 0 then None
         else
           let numRoutines = nat (NumRoutines (Config m));
               numRoutines = (if numRoutines > lenLeaves then lenLeaves else numRoutines);
               argList = map (\<lambda>i. zero_args\<lparr>dataBlockField := blocks, intField1 := i,
                                     intField2 := lenLeaves, intField3 := numRoutines\<rparr>)
                             [0 ..< numRoutines]
           in (case pool_Map (leafGenHandler m) argList leaves of
                 None \<Rightarrow> None
               | Some (leaves, errList) \<Rightarrow>
                   (case first_error errList of
                      Some e \<Rightarrow> Some ([], Some e)
                    | None \<Rightarrow> Some (leaves, None))))"

section \<open>Odd-node balancing and proof recording\<close>

definition fixOdd :: "bytes list \<Rightarrow> nat \<Rightarrow> (bytes list \<times> nat) option" where
  "fixOdd buf prevLen =
     (if even prevLen then Some (buf, prevLen)
      else do {
        appendNode \<leftarrow> nth_opt buf (prevLen - 1);
        let prevLen = prevLen + 1 in
        if length buf < prevLen then Some (buf @ [appendNode], prevLen)
        else do { buf' \<leftarrow> upd_opt buf (prevLen - 1) appendNode; Some (buf', prevLen) }
      })"

definition initProofs :: "MerkleTree \<Rightarrow> MerkleTree" where
  "initProofs m = m\<lparr>Proofs := replicate (NumLeaves m) \<lparr>Siblings = [], Path = 0\<rparr>\<rparr>"

text \<open>
  The two loops of \<open>updatePairProofs\<close>. \<open>1 << step\<close> is a \<open>uint32\<close> there, as \<open>Path\<close> is:
  it is 0 from step 32 on.
\<close>

definition updatePairProofs_left :: "bytes list \<Rightarrow> nat \<Rightarrow> nat \<Rightarrow> nat \<Rightarrow> MerkleTree
    \<Rightarrow> MerkleTree option" where
  "updatePairProofs_left buf idx step i m =
     do {
       p \<leftarrow> nth_opt (Proofs m) i;
       sib \<leftarrow> nth_opt buf (idx + 1);
       ps \<leftarrow> upd_opt (Proofs m) i
               (p\<lparr>Siblings := Siblings p @ [sib], Path := Path p + push_bit step 1\<rparr>);
       Some (m\<lparr>Proofs := ps\<rparr>)
     }"

definition updatePairProofs_right :: "bytes list \<Rightarrow> nat \<Rightarrow> nat \<Rightarrow> MerkleTree
    \<Rightarrow> MerkleTree option" where
  "updatePairProofs_right buf idx i m =
     do {
       p \<leftarrow> nth_opt (Proofs m) i;
       sib \<leftarrow> nth_opt buf idx;
       ps \<leftarrow> upd_opt (Proofs m) i (p\<lparr>Siblings := Siblings p @ [sib]\<rparr>);
       Some (m\<lparr>Proofs := ps\<rparr>)
     }"

definition updatePairProofs :: "MerkleTree \<Rightarrow> bytes list \<Rightarrow> nat \<Rightarrow> nat \<Rightarrow> nat
    \<Rightarrow> MerkleTree option" where
  "updatePairProofs m buf idx batch step =
     (let start = idx * batch;
          end = min (start + batch) (length (Proofs m))
      in do {
        m \<leftarrow> for_each [start ..< end] (updatePairProofs_left buf idx step) m;
        let start = start + batch;
            end = min (start + batch) (length (Proofs m))
        in for_each [start ..< end] (updatePairProofs_right buf idx) m
      })"

definition updateProofs :: "MerkleTree \<Rightarrow> bytes list \<Rightarrow> nat \<Rightarrow> nat \<Rightarrow> MerkleTree option" where
  "updateProofs m buf bufLen step =
     (let batch = 2 ^ step
      in for_each (strided 0 bufLen 2) (\<lambda>i m. updatePairProofs m buf i batch step) m)"

text \<open>\<open>updateProofHandler\<close>: the state is the tree \<open>arg.mt\<close>, whose proofs it extends.\<close>

definition updateProofHandler :: "poolWorkerArgs \<Rightarrow> MerkleTree
    \<Rightarrow> (MerkleTree \<times> error option) option" where
  "updateProofHandler arg mt =
     (let buf = byteField1 arg;
          start = intField1 arg;
          batch = intField2 arg;
          step = intField3 arg;
          bufLen = intField4 arg;
          numRoutines = intField5 arg
      in if numRoutines = 0 \<and> start < bufLen then None
         else (case for_each (strided start bufLen (2 * numRoutines))
                      (\<lambda>i mt. updatePairProofs mt buf i batch step) mt of
                 None \<Rightarrow> None
               | Some mt' \<Rightarrow> Some (mt', None)))"

definition updateProofsParallel :: "MerkleTree \<Rightarrow> bytes list \<Rightarrow> nat \<Rightarrow> nat
    \<Rightarrow> MerkleTree option" where
  "updateProofsParallel m buf bufLen step =
     (let batch = 2 ^ step
      in if NumRoutines (Config m) < 0 then None
         else
           let numRoutines = nat (NumRoutines (Config m));
               numRoutines = (if numRoutines > bufLen then bufLen else numRoutines);
               argList = map (\<lambda>i. zero_args\<lparr>byteField1 := buf, intField1 := 2 * i,
                                     intField2 := batch, intField3 := step,
                                     intField4 := bufLen, intField5 := numRoutines\<rparr>)
                             [0 ..< numRoutines]
           in map_option fst (pool_Map updateProofHandler argList m))"

section \<open>Streamed construction: \<open>proofGen\<close>\<close>

text \<open>
  One pair of the sequential hashing loop of \<open>proofGen\<close>, in place:
  \<open>buf[idx>>1], err = m.HashFunc(m.concatFunc(buf[idx], buf[idx+1]))\<close>.
\<close>

definition proofGen_pair :: "Config \<Rightarrow> nat \<Rightarrow> bytes list \<Rightarrow> (bytes list \<times> error option) option" where
  "proofGen_pair config idx buf =
     do {
       b1 \<leftarrow> nth_opt buf idx;
       b2 \<leftarrow> nth_opt buf (idx + 1);
       r \<leftarrow> hashPair config b1 b2;
       (case r of
          Inl e \<Rightarrow> do { buf' \<leftarrow> upd_opt buf (idx div 2) []; Some (buf', Some e) }
        | Inr d \<Rightarrow> do { buf' \<leftarrow> upd_opt buf (idx div 2) d; Some (buf', None) })
     }"

text \<open>
  The body of \<open>for step := 1; step < m.Depth; step++\<close> in \<open>proofGen\<close>; its state is the
  tree, the buffer and \<open>prevLen\<close>.
\<close>

definition proofGen_step :: "nat \<Rightarrow> MerkleTree \<times> bytes list \<times> nat
    \<Rightarrow> ((MerkleTree \<times> bytes list \<times> nat) \<times> error option) option" where
  "proofGen_step step = (\<lambda>(m, buf, prevLen).
     (case for_loop (strided 0 prevLen 2) (proofGen_pair (Config m)) buf of
        None \<Rightarrow> None
      | Some (buf, Some e) \<Rightarrow> Some ((m, buf, prevLen), Some e)
      | Some (buf, None) \<Rightarrow>
          do {
            (buf, prevLen) \<leftarrow> fixOdd buf (prevLen div 2);
            m \<leftarrow> updateProofs m buf prevLen step;
            Some ((m, buf, prevLen), None)
          }))"

text \<open>\<open>m.Root, err = m.HashFunc(m.concatFunc(buf[0], buf[1]))\<close>, the end of both variants.\<close>

definition setRoot :: "MerkleTree \<Rightarrow> bytes list \<Rightarrow> (MerkleTree \<times> error option) option" where
  "setRoot m buf =
     do {
       b1 \<leftarrow> nth_opt buf 0;
       b2 \<leftarrow> nth_opt buf 1;
       r \<leftarrow> hashPair (Config m) b1 b2;
       (case r of
          Inl e \<Rightarrow> Some (m\<lparr>Root := []\<rparr>, Some e)
        | Inr d \<Rightarrow> Some (m\<lparr>Root := d\<rparr>, None))
     }"

text \<open>\<open>proofGenHandler\<close>: reads \<open>buf1\<close>; the state is \<open>buf2\<close> (\<open>arg.byteField2\<close>).\<close>

definition proofGenHandler_pair :: "Config \<Rightarrow> bytes list \<Rightarrow> nat \<Rightarrow> bytes list
    \<Rightarrow> (bytes list \<times> error option) option" where
  "proofGenHandler_pair config buf1 i buf2 =
     do {
       b1 \<leftarrow> nth_opt buf1 i;
       b2 \<leftarrow> nth_opt buf1 (i + 1);
       r \<leftarrow> hashPair config b1 b2;
       (case r of
          Inl e \<Rightarrow> Some (buf2, Some e)
        | Inr newHash \<Rightarrow> do { buf2' \<leftarrow> upd_opt buf2 (i div 2) newHash; Some (buf2', None) })
     }"

definition proofGenHandler :: "MerkleTree \<Rightarrow> poolWorkerArgs \<Rightarrow> bytes list
    \<Rightarrow> (bytes list \<times> error option) option" where
  "proofGenHandler mt arg buf2 =
     (let buf1 = byteField1 arg;
          start = intField1 arg;
          prevLen = intField2 arg;
          numRoutines = intField3 arg
      in if numRoutines = 0 \<and> start < prevLen then None
         else for_loop (strided start prevLen (2 * numRoutines))
                (proofGenHandler_pair (Config mt) buf1) buf2)"

text \<open>
  The body of the loop over \<open>step\<close> in \<open>proofGenParallel\<close>; its state is the tree, \<open>buf\<close>,
  \<open>buff\<close>, \<open>prevLen\<close> and \<open>numRoutines\<close>.
\<close>

definition proofGenParallel_step :: "nat \<Rightarrow> MerkleTree \<times> bytes list \<times> bytes list \<times> nat \<times> int
    \<Rightarrow> ((MerkleTree \<times> bytes list \<times> bytes list \<times> nat \<times> int) \<times> error option) option" where
  "proofGenParallel_step step = (\<lambda>(m, buf, buff, prevLen, numRoutines).
     (let numRoutines = (if numRoutines > int prevLen then int prevLen else numRoutines)
      in if numRoutines < 0 then None
         else
           let argList = map (\<lambda>i. zero_args\<lparr>byteField1 := buf, intField1 := 2 * i,
                                     intField2 := prevLen, intField3 := nat numRoutines\<rparr>)
                             [0 ..< nat numRoutines]
           in (case pool_Map (proofGenHandler m) argList buff of
                 None \<Rightarrow> None
               | Some (buff, errList) \<Rightarrow>
                   (case first_error errList of
                      Some e \<Rightarrow> Some ((m, buf, buff, prevLen, numRoutines), Some e)
                    | None \<Rightarrow>
                        do {
                          (buf', prevLen) \<leftarrow> fixOdd buff (prevLen div 2);
                          m \<leftarrow> updateProofsParallel m buf' prevLen step;
                          Some ((m, buf', buf, prevLen, numRoutines), None)
                        }))))"

definition proofGenParallel :: "MerkleTree \<Rightarrow> bytes list \<Rightarrow> nat
    \<Rightarrow> (MerkleTree \<times> error option) option" where
  "proofGenParallel m buf prevLen =
     (let buff = make_slice (prevLen div 2)
      in do {
        m \<leftarrow> updateProofsParallel m buf (NumLeaves m) 0;
        r \<leftarrow> for_loop [1 ..< Depth m] proofGenParallel_step
               (m, buf, buff, prevLen, NumRoutines (Config m));
        (case r of
           ((m, buf, buff, prevLen, numRoutines), Some e) \<Rightarrow> Some (m, Some e)
         | ((m, buf, buff, prevLen, numRoutines), None) \<Rightarrow> setRoot m buf)
      })"

definition proofGen :: "MerkleTree \<Rightarrow> (MerkleTree \<times> error option) option" where
  "proofGen m =
     (let m = initProofs m;
          buf = copy_slice (make_slice (NumLeaves m)) (Leaves m)
      in do {
        (buf, prevLen) \<leftarrow> fixOdd buf (NumLeaves m);
        if RunInParallel (Config m) then proofGenParallel m buf prevLen
        else do {
          m \<leftarrow> updateProofs m buf (NumLeaves m) 0;
          r \<leftarrow> for_loop [1 ..< Depth m] proofGen_step (m, buf, prevLen);
          (case r of
             ((m, buf, prevLen), Some e) \<Rightarrow> Some (m, Some e)
           | ((m, buf, prevLen), None) \<Rightarrow> setRoot m buf)
        }
      })"

section \<open>Tree-retained construction: \<open>treeBuild\<close>\<close>

text \<open>Reading \<open>m.nodes[lvl][k]\<close> and writing \<open>m.nodes[lvl][k] = v\<close>.\<close>

definition get_node :: "MerkleTree \<Rightarrow> nat \<Rightarrow> nat \<Rightarrow> bytes option" where
  "get_node m lvl k = do { level \<leftarrow> nth_opt (nodes m) lvl; nth_opt level k }"

definition set_node :: "MerkleTree \<Rightarrow> nat \<Rightarrow> nat \<Rightarrow> bytes \<Rightarrow> MerkleTree option" where
  "set_node m lvl k v =
     do {
       level \<leftarrow> nth_opt (nodes m) lvl;
       level' \<leftarrow> upd_opt level k v;
       ns \<leftarrow> upd_opt (nodes m) lvl level';
       Some (m\<lparr>nodes := ns\<rparr>)
     }"

text \<open>Writing a whole level, \<open>m.nodes[lvl] = level\<close>.\<close>

definition set_level :: "MerkleTree \<Rightarrow> nat \<Rightarrow> bytes list \<Rightarrow> MerkleTree option" where
  "set_level m lvl level = do { ns \<leftarrow> upd_opt (nodes m) lvl level; Some (m\<lparr>nodes := ns\<rparr>) }"

text \<open>
  One pair of the inner loop of \<open>treeBuild\<close>:
  \<open>m.nodes[i+1][j>>1], err = m.HashFunc(m.concatFunc(m.nodes[i][j], m.nodes[i][j+1]))\<close>.
\<close>

definition treeBuild_pair :: "nat \<Rightarrow> nat \<Rightarrow> MerkleTree \<Rightarrow> (MerkleTree \<times> error option) option" where
  "treeBuild_pair i j m =
     do {
       b1 \<leftarrow> get_node m i j;
       b2 \<leftarrow> get_node m i (j + 1);
       r \<leftarrow> hashPair (Config m) b1 b2;
       (case r of
          Inl e \<Rightarrow> do { m' \<leftarrow> set_node m (i + 1) (j div 2) []; Some (m', Some e) }
        | Inr d \<Rightarrow> do { m' \<leftarrow> set_node m (i + 1) (j div 2) d; Some (m', None) })
     }"

text \<open>\<open>m.nodes[i+1], prevLen = m.fixOdd(m.nodes[i+1], len(m.nodes[i+1]))\<close>.\<close>

definition fixOdd_level :: "MerkleTree \<Rightarrow> nat \<Rightarrow> (MerkleTree \<times> nat) option" where
  "fixOdd_level m lvl =
     do {
       level \<leftarrow> nth_opt (nodes m) lvl;
       (level', prevLen) \<leftarrow> fixOdd level (length level);
       m' \<leftarrow> set_level m lvl level';
       Some (m', prevLen)
     }"

text \<open>The body of \<open>for i := 0; i < m.Depth-1; i++\<close> in \<open>treeBuild\<close>.\<close>

definition treeBuild_level :: "nat \<Rightarrow> MerkleTree \<times> nat
    \<Rightarrow> ((MerkleTree \<times> nat) \<times> error option) option" where
  "treeBuild_level i = (\<lambda>(m, prevLen).
     do {
       m \<leftarrow> set_level m (i + 1) (make_slice (prevLen div 2));
       r \<leftarrow> for_loop (strided 0 prevLen 2) (treeBuild_pair i) m;
       (case r of
          (m, Some e) \<Rightarrow> Some ((m, prevLen), Some e)
        | (m, None) \<Rightarrow> do { (m, prevLen) \<leftarrow> fixOdd_level m (i + 1); Some ((m, prevLen), None) })
     })"

text \<open>\<open>treeBuildHandler\<close>: the state is the tree \<open>arg.mt\<close>, whose \<open>nodes\<close> it fills.\<close>

definition treeBuildHandler_pair :: "nat \<Rightarrow> nat \<Rightarrow> MerkleTree
    \<Rightarrow> (MerkleTree \<times> error option) option" where
  "treeBuildHandler_pair depth i mt =
     do {
       b1 \<leftarrow> get_node mt depth i;
       b2 \<leftarrow> get_node mt depth (i + 1);
       r \<leftarrow> hashPair (Config mt) b1 b2;
       (case r of
          Inl e \<Rightarrow> Some (mt, Some e)
        | Inr newHash \<Rightarrow> do { mt' \<leftarrow> set_node mt (depth + 1) (i div 2) newHash; Some (mt', None) })
     }"

definition treeBuildHandler :: "poolWorkerArgs \<Rightarrow> MerkleTree
    \<Rightarrow> (MerkleTree \<times> error option) option" where
  "treeBuildHandler arg mt =
     (let start = intField1 arg;
          prevLen = intField2 arg;
          numRoutines = intField3 arg;
          depth = intField4 arg
      in if numRoutines = 0 \<and> start < prevLen then None
         else for_loop (strided start prevLen (2 * numRoutines))
                (treeBuildHandler_pair depth) mt)"

text \<open>The body of the loop of \<open>computeTreeNodeParallel\<close>.\<close>

definition computeTreeNodeParallel_level :: "nat \<Rightarrow> MerkleTree \<times> nat
    \<Rightarrow> ((MerkleTree \<times> nat) \<times> error option) option" where
  "computeTreeNodeParallel_level i = (\<lambda>(m, prevLen).
     do {
       m \<leftarrow> set_level m (i + 1) (make_slice (prevLen div 2));
       if NumRoutines (Config m) < 0 then None
       else
         let numRoutines = nat (NumRoutines (Config m));
             numRoutines = (if numRoutines > prevLen then prevLen else numRoutines);
             argList = map (\<lambda>j. zero_args\<lparr>intField1 := 2 * j, intField2 := prevLen,
                                   intField3 := nat (NumRoutines (Config m)),
                                   intField4 := i\<rparr>)
                           [0 ..< numRoutines]
         in (case pool_Map treeBuildHandler argList m of
               None \<Rightarrow> None
             | Some (m, errList) \<Rightarrow>
                 (case first_error errList of
                    Some e \<Rightarrow> Some ((m, prevLen), Some e)
                  | None \<Rightarrow>
                      do { (m, prevLen) \<leftarrow> fixOdd_level m (i + 1); Some ((m, prevLen), None) }))
     })"

definition computeTreeNodeParallel :: "MerkleTree \<Rightarrow> nat \<Rightarrow> (MerkleTree \<times> error option) option" where
  "computeTreeNodeParallel m prevLen =
     map_option (\<lambda>((m, prevLen), err). (m, err))
       (for_loop [0 ..< Depth m - 1] computeTreeNodeParallel_level (m, prevLen))"

text \<open>
  \<open>treeBuild\<close>. The goroutine that fills \<open>leafMap\<close> runs beside the construction of the
  levels and writes nothing else; \<open>treeBuild\<close> waits for it before it returns without an
  error. The model fills the map first. (When \<open>treeBuild\<close> returns an error it does not
  wait, and the map of the returned tree is then either empty or full.)
\<close>

text \<open>The second part of \<open>treeBuild\<close>: the levels above level 0, and the root.\<close>

definition treeBuild_levels :: "MerkleTree \<Rightarrow> nat \<Rightarrow> (MerkleTree \<times> error option) option" where
  "treeBuild_levels m prevLen =
     do {
       r \<leftarrow> (if RunInParallel (Config m) then computeTreeNodeParallel m prevLen
             else Some (m, None));
       (case r of
          (m, Some e) \<Rightarrow> Some (m, Some e)
        | (m, None) \<Rightarrow>
            do {
              r \<leftarrow> for_loop [0 ..< Depth m - 1] treeBuild_level (m, prevLen);
              (case r of
                 ((m, prevLen), Some e) \<Rightarrow> Some (m, Some e)
               | ((m, prevLen), None) \<Rightarrow>
                   do { level \<leftarrow> nth_opt (nodes m) (Depth m - 1); setRoot m level })
            })
     }"

definition treeBuild :: "MerkleTree \<Rightarrow> (MerkleTree \<times> error option) option" where
  "treeBuild m =
     do {
       lm \<leftarrow> for_each [0 ..< NumLeaves m]
               (\<lambda>i lm. do { leaf \<leftarrow> nth_opt (Leaves m) i; Some (lm(leaf \<mapsto> i)) }) (leafMap m);
       let m = m\<lparr>leafMap := lm\<rparr>;
           m = m\<lparr>nodes := replicate (Depth m) []\<rparr>
       in do {
         m \<leftarrow> set_level m 0 (copy_slice (make_slice (NumLeaves m)) (Leaves m));
         level0 \<leftarrow> nth_opt (nodes m) 0;
         (level0, prevLen) \<leftarrow> fixOdd level0 (NumLeaves m);
         m \<leftarrow> set_level m 0 level0;
         treeBuild_levels m prevLen
       }
     }"

section \<open>\<open>New\<close>\<close>

text \<open>
  \<open>New\<close> returns the pair \<open>(m, err)\<close> of the Go function: \<open>m\<close> is \<open>None\<close> for a nil
  pointer. \<open>runtime.NumCPU()\<close> is positive; for a runtime that reports otherwise the
  model gives no return.
\<close>

definition New_init :: "runtime \<Rightarrow> Config option \<Rightarrow> DataBlock list \<Rightarrow> MerkleTree" where
  "New_init rt config blocks =
     (let config = (case config of None \<Rightarrow> new_Config | Some c \<Rightarrow> c);
          m = \<lparr>Config = config, leafMap = Map.empty, nodes = [], Root = [], Leaves = [],
               Proofs = [], Depth = bits_Len (length blocks - 1),
               NumLeaves = length blocks\<rparr>;
          m = (if HashFunc (Config m) = None
               then m\<lparr>Config := (Config m)\<lparr>HashFunc :=
                      Some (if RunInParallel (Config m) then DefaultHashFuncParallel rt
                            else DefaultHashFunc rt)\<rparr>\<rparr>
               else m);
          m = (if concatFunc (Config m) = None
               then m\<lparr>Config := (Config m)\<lparr>concatFunc :=
                      Some (if SortSiblingPairs (Config m) then concatSortHash
                            else concatHash)\<rparr>\<rparr>
               else m)
      in if RunInParallel (Config m) \<and> NumRoutines (Config m) \<le> 0
         then m\<lparr>Config := (Config m)\<lparr>NumRoutines := NumCPU rt\<rparr>\<rparr>
         else m)"

text \<open>The loops \<open>for i := 0; i < len(m.nodes); i++\<close> at the end of \<open>New\<close>.\<close>

definition New_updateProofs :: "MerkleTree \<Rightarrow> MerkleTree option" where
  "New_updateProofs m =
     for_each [0 ..< length (nodes m)]
       (\<lambda>i m. do { level \<leftarrow> nth_opt (nodes m) i; updateProofs m level (length level) i }) m"

definition New_updateProofsParallel :: "MerkleTree \<Rightarrow> MerkleTree option" where
  "New_updateProofsParallel m =
     for_each [0 ..< length (nodes m)]
       (\<lambda>i m. do { level \<leftarrow> nth_opt (nodes m) i; updateProofsParallel m level (length level) i }) m"

text \<open>The part of \<open>New\<close> after the leaves: the actions of the mode.\<close>

definition New_mode :: "MerkleTree \<Rightarrow> (MerkleTree option \<times> error option) option" where
  "New_mode m =
     (let m = (if Mode (Config m) = 0
               then m\<lparr>Config := (Config m)\<lparr>Mode := ModeProofGen\<rparr>\<rparr> else m)
      in if Mode (Config m) = ModeProofGen
         then do { (m, err) \<leftarrow> proofGen m; Some (Some m, err) }
         else
           let m = m\<lparr>leafMap := Map.empty\<rparr>
           in if Mode (Config m) = ModeTreeBuild
              then do { (m, err) \<leftarrow> treeBuild m; Some (Some m, err) }
              else if Mode (Config m) = ModeProofGenAndTreeBuild
              then do {
                (m, err) \<leftarrow> treeBuild m;
                (case err of
                   Some e \<Rightarrow> Some (Some m, Some e)
                 | None \<Rightarrow>
                     let m = initProofs m
                     in if RunInParallel (Config m)
                        then do { m \<leftarrow> New_updateProofsParallel m; Some (Some m, None) }
                        else do { m \<leftarrow> New_updateProofs m; Some (Some m, None) })
              }
              else Some (None, Some ErrInvalidConfigMode))"

text \<open>
  \<open>New\<close>: \<open>New_init\<close> is the tree with the defaults of the configuration filled in,
  \<open>New_mode\<close> what follows the generation of the leaves.
\<close>

definition New :: "runtime \<Rightarrow> Config option \<Rightarrow> DataBlock list
    \<Rightarrow> (MerkleTree option \<times> error option) option" where
  "New rt config blocks =
     (if length blocks \<le> 1 then Some (None, Some ErrInvalidNumOfDataBlocks)
      else
        let m = New_init rt config blocks
        in if RunInParallel (Config m) \<and> NumRoutines (Config m) \<le> 0 then None
           else do {
             (leaves, err) \<leftarrow> (if RunInParallel (Config m) then leafGenParallel m blocks
                                else leafGen m blocks);
             let m = m\<lparr>Leaves := leaves\<rparr> in
             (case err of
                Some e \<Rightarrow> Some (None, Some e)
              | None \<Rightarrow> New_mode m)
           })"

section \<open>\<open>Verify\<close> and \<open>Proof\<close>\<close>

text \<open>The loop \<open>for _, sib := range proof.Siblings\<close> of \<open>Verify\<close>.\<close>

fun Verify_loop :: "Config \<Rightarrow> bytes list \<Rightarrow> bytes \<Rightarrow> 32 word \<Rightarrow> (error + bytes) option" where
  "Verify_loop config [] result path = Some (Inr result)"
| "Verify_loop config (sib # sibs) result path =
     do {
       r \<leftarrow> (if path AND 1 = 1 then hashPair config result sib
             else hashPair config sib result);
       (case r of
          Inl e \<Rightarrow> Some (Inl e)
        | Inr result' \<Rightarrow> Verify_loop config sibs result' (drop_bit 1 path))
     }"

text \<open>
  \<open>Verify\<close> takes a data block and a proof that may be nil, and a pointer to a
  configuration that may be nil. It returns \<open>(false, err)\<close> or \<open>(b, nil)\<close>: the first
  component below. It writes to the configuration it is given: the second component is
  the caller's configuration after the call.
\<close>

definition Verify :: "runtime \<Rightarrow> DataBlock option \<Rightarrow> Proof option \<Rightarrow> bytes \<Rightarrow> Config option
    \<Rightarrow> ((error + bool) \<times> Config option) option" where
  "Verify rt dataBlock proof root config =
     (case dataBlock of
        None \<Rightarrow> Some (Inl ErrDataBlockIsNil, config)
      | Some block \<Rightarrow>
          (case proof of
             None \<Rightarrow> Some (Inl ErrProofIsNil, config)
           | Some prf \<Rightarrow>
               let cfg = (case config of None \<Rightarrow> new_Config | Some c \<Rightarrow> c);
                   cfg = (if HashFunc cfg = None
                          then cfg\<lparr>HashFunc := Some (DefaultHashFunc rt)\<rparr> else cfg);
                   cfg = (if concatFunc cfg = None
                          then cfg\<lparr>concatFunc := Some concatHash\<rparr> else cfg);
                   config' = map_option (\<lambda>c. cfg) config
               in do {
                 r \<leftarrow> leafFromBlock block cfg;
                 (case r of
                    Inl e \<Rightarrow> Some (Inl e, config')
                  | Inr leaf \<Rightarrow>
                      let result = copy_slice (replicate (length leaf) 0) leaf
                      in do {
                        r \<leftarrow> Verify_loop cfg (Siblings prf) result (Path prf);
                        (case r of
                           Inl e \<Rightarrow> Some (Inl e, config')
                         | Inr result \<Rightarrow> Some (Inr (result = root), config'))
                      })
               }))"

text \<open>
  The method \<open>(m *MerkleTree) Verify\<close>: \<open>Verify(dataBlock, proof, m.Root, &m.Config)\<close>.
  The second component is the tree after the call.
\<close>

definition MerkleTree_Verify :: "runtime \<Rightarrow> MerkleTree \<Rightarrow> DataBlock option \<Rightarrow> Proof option
    \<Rightarrow> ((error + bool) \<times> MerkleTree) option" where
  "MerkleTree_Verify rt m dataBlock proof =
     (case Verify rt dataBlock proof (Root m) (Some (Config m)) of
        None \<Rightarrow> None
      | Some (r, config') \<Rightarrow>
          Some (r, (case config' of None \<Rightarrow> m | Some c \<Rightarrow> m\<lparr>Config := c\<rparr>)))"

text \<open>
  One level of the walk of \<open>Proof\<close>; its state is \<open>idx\<close>, \<open>path\<close> and \<open>siblings\<close>.
  \<open>1 << i\<close> is a \<open>uint32\<close>, as \<open>path\<close> is.
\<close>

definition Proof_level :: "MerkleTree \<Rightarrow> nat \<Rightarrow> nat \<times> 32 word \<times> bytes list
    \<Rightarrow> (nat \<times> 32 word \<times> bytes list) option" where
  "Proof_level m i = (\<lambda>(idx, path, siblings).
     if odd idx
     then do {
       sib \<leftarrow> get_node m i (idx - 1);
       siblings' \<leftarrow> upd_opt siblings i sib;
       Some (idx div 2, path, siblings')
     }
     else do {
       sib \<leftarrow> get_node m i (idx + 1);
       siblings' \<leftarrow> upd_opt siblings i sib;
       Some (idx div 2, path + push_bit i 1, siblings')
     })"

text \<open>The method \<open>(m *MerkleTree) Proof\<close>: \<open>(nil, err)\<close> or \<open>(proof, nil)\<close>.\<close>

definition MerkleTree_Proof :: "MerkleTree \<Rightarrow> DataBlock \<Rightarrow> (error + Proof) option" where
  "MerkleTree_Proof m dataBlock =
     (if Mode (Config m) \<noteq> ModeTreeBuild \<and> Mode (Config m) \<noteq> ModeProofGenAndTreeBuild
      then Some (Inl ErrProofInvalidModeTreeNotBuilt)
      else do {
        r \<leftarrow> leafFromBlock dataBlock (Config m);
        (case r of
           Inl e \<Rightarrow> Some (Inl e)
         | Inr leaf \<Rightarrow>
             (case leafMap m leaf of
                None \<Rightarrow> Some (Inl ErrProofInvalidDataBlock)
              | Some idx \<Rightarrow>
                  do {
                    (idx', path, siblings) \<leftarrow>
                      for_each [0 ..< Depth m] (Proof_level m) (idx, 0, make_slice (Depth m));
                    Some (Inr \<lparr>Siblings = siblings, Path = path\<rparr>)
                  }))
      })"

section \<open>The tree as a function of the leaves\<close>

text \<open>
  The definitions of this section are not translations of the code: they say, as plain
  functions of the leaf digests and of the configured pair hash \<open>H\<close>, what the levels,
  the root and the proofs of a tree are. The theorems below relate what the code
  computes to them.
\<close>

definition hp :: "(bytes \<Rightarrow> bytes \<Rightarrow> (error + bytes) option) \<Rightarrow> bytes \<Rightarrow> bytes \<Rightarrow> bytes" where
  "hp H a b = (case H a b of Some (Inr d) \<Rightarrow> d | _ \<Rightarrow> [])"

definition okp :: "(bytes \<Rightarrow> bytes \<Rightarrow> (error + bytes) option) \<Rightarrow> bytes \<Rightarrow> bytes \<Rightarrow> bool" where
  "okp H a b = (case H a b of Some (Inr d) \<Rightarrow> True | _ \<Rightarrow> False)"

definition pad :: "'a list \<Rightarrow> 'a list" where
  "pad xs = (if even (length xs) then xs else xs @ [last xs])"

definition next_level :: "(bytes \<Rightarrow> bytes \<Rightarrow> (error + bytes) option) \<Rightarrow> bytes list \<Rightarrow> bytes list" where
  "next_level H xs = map (\<lambda>k. hp H (xs ! (2 * k)) (xs ! (2 * k + 1))) [0 ..< length xs div 2]"

primrec level :: "(bytes \<Rightarrow> bytes \<Rightarrow> (error + bytes) option) \<Rightarrow> bytes list \<Rightarrow> nat \<Rightarrow> bytes list" where
  "level H leaves 0 = pad leaves"
| "level H leaves (Suc k) = pad (next_level H (level H leaves k))"

definition level_ok :: "(bytes \<Rightarrow> bytes \<Rightarrow> (error + bytes) option) \<Rightarrow> bytes list \<Rightarrow> bool" where
  "level_ok H xs = list_all (\<lambda>k. okp H (xs ! (2 * k)) (xs ! (2 * k + 1))) [0 ..< length xs div 2]"

definition root_ok :: "(bytes \<Rightarrow> bytes \<Rightarrow> (error + bytes) option) \<Rightarrow> bytes list \<Rightarrow> nat \<Rightarrow> bool" where
  "root_ok H leaves D = okp H (level H leaves (D - 1) ! 0) (level H leaves (D - 1) ! 1)"

definition levels_ok :: "(bytes \<Rightarrow> bytes \<Rightarrow> (error + bytes) option) \<Rightarrow> bytes list \<Rightarrow> nat \<Rightarrow> bool" where
  "levels_ok H leaves D = list_all (\<lambda>k. level_ok H (level H leaves k)) [0 ..< D - 1]"

definition root_of :: "(bytes \<Rightarrow> bytes \<Rightarrow> (error + bytes) option) \<Rightarrow> bytes list \<Rightarrow> nat \<Rightarrow> bytes" where
  "root_of H leaves D = hp H (level H leaves (D - 1) ! 0) (level H leaves (D - 1) ! 1)"

definition sib_pos :: "nat \<Rightarrow> nat" where
  "sib_pos p = (if odd p then p - 1 else p + 1)"

primrec path_upto :: "nat \<Rightarrow> nat \<Rightarrow> 32 word" where
  "path_upto j 0 = 0"
| "path_upto j (Suc k) = path_upto j k + (if even (j div 2 ^ k) then push_bit k 1 else 0)"

definition proof_of :: "(bytes \<Rightarrow> bytes \<Rightarrow> (error + bytes) option) \<Rightarrow> bytes list \<Rightarrow> nat \<Rightarrow> nat \<Rightarrow> Proof" where
  "proof_of H leaves D j =
     \<lparr>Siblings = map (\<lambda>k. level H leaves k ! sib_pos (j div 2 ^ k)) [0 ..< D],
      Path = path_upto j D\<rparr>"

text \<open>What one call of \<open>updatePairProofs\<close> for the pair that covers proof \<open>j\<close> does to it.\<close>

definition record_sibling :: "bytes list \<Rightarrow> nat \<Rightarrow> nat \<Rightarrow> Proof \<Rightarrow> Proof" where
  "record_sibling buf step j p =
     (if even (j div 2 ^ step)
      then p\<lparr>Siblings := Siblings p @ [buf ! (j div 2 ^ step + 1)],
             Path := Path p + push_bit step 1\<rparr>
      else p\<lparr>Siblings := Siblings p @ [buf ! (j div 2 ^ step - 1)]\<rparr>)"

text \<open>The proofs after the pairs of a set \<open>S\<close> of (even) buffer positions have been recorded.\<close>

definition record_pairs :: "nat set \<Rightarrow> bytes list \<Rightarrow> nat \<Rightarrow> Proof list \<Rightarrow> Proof list" where
  "record_pairs S buf step ps =
     map (\<lambda>j. if 2 * (j div 2 ^ step div 2) \<in> S then record_sibling buf step j (ps ! j) else ps ! j)
       [0 ..< length ps]"

definition leaf_of :: "Config \<Rightarrow> DataBlock \<Rightarrow> bytes" where
  "leaf_of c b = (case leafFromBlock b c of Some (Inr l) \<Rightarrow> l | _ \<Rightarrow> [])"

definition leaf_ok :: "Config \<Rightarrow> DataBlock \<Rightarrow> bool" where
  "leaf_ok c b = (case leafFromBlock b c of Some (Inr l) \<Rightarrow> True | _ \<Rightarrow> False)"

text \<open>The leaf index: the last position of each digest.\<close>

definition index_of :: "bytes list \<Rightarrow> bytes \<rightharpoonup> nat" where
  "index_of leaves = fold (\<lambda>i lm. lm(leaves ! i \<mapsto> i)) [0 ..< length leaves] Map.empty"

text \<open>Frames: a tree that differs from another in its proofs, or in its nodes, only.\<close>

definition upd_Proofs :: "MerkleTree \<Rightarrow> MerkleTree \<Rightarrow> bool" where
  "upd_Proofs m m' \<longleftrightarrow> (\<exists>ps. m' = m\<lparr>Proofs := ps\<rparr>)"

definition upd_nodes :: "MerkleTree \<Rightarrow> MerkleTree \<Rightarrow> bool" where
  "upd_nodes m m' \<longleftrightarrow> (\<exists>ns. m' = m\<lparr>nodes := ns\<rparr>)"

text \<open>
  A loop body that writes, for the index \<open>i\<close>, the value \<open>val i\<close> into slot \<open>slot i\<close> of a
  list \<open>get s\<close> of its state when \<open>ok i\<close>, and returns an error otherwise; and what a
  loop of such bodies over the indices \<open>I\<close> has done to the list.
\<close>

definition slot_spec :: "(nat \<Rightarrow> 's \<Rightarrow> ('s \<times> error option) option) \<Rightarrow> nat set \<Rightarrow> ('s \<Rightarrow> bool)
    \<Rightarrow> ('s \<Rightarrow> 'a list) \<Rightarrow> (nat \<Rightarrow> nat) \<Rightarrow> (nat \<Rightarrow> 'a) \<Rightarrow> (nat \<Rightarrow> bool) \<Rightarrow> nat \<Rightarrow> bool" where
  "slot_spec body I Inv get slot val ok L \<longleftrightarrow>
     (\<forall>i\<in>I. \<forall>s. Inv s \<and> length (get s) = L \<longrightarrow>
        (\<exists>s' e. body i s = Some (s', e) \<and> Inv s' \<and> length (get s') = L \<and>
           (e = None \<longleftrightarrow> ok i) \<and> (ok i \<longrightarrow> get s' = (get s)[slot i := val i])))"

definition slot_post :: "'a list \<Rightarrow> nat set \<Rightarrow> (nat \<Rightarrow> nat) \<Rightarrow> (nat \<Rightarrow> 'a) \<Rightarrow> (nat \<Rightarrow> bool)
    \<Rightarrow> 'a list \<Rightarrow> error option \<Rightarrow> bool" where
  "slot_post xs I slot val ok xs' e \<longleftrightarrow>
     length xs' = length xs \<and> (e = None \<longleftrightarrow> (\<forall>i\<in>I. ok i)) \<and>
     ((\<forall>i\<in>I. ok i) \<longrightarrow>
        (\<forall>i\<in>I. xs' ! slot i = val i) \<and> (\<forall>k. k \<notin> slot ` I \<longrightarrow> xs' ! k = xs ! k))"


text \<open>A configuration whose hash and concatenation functions are set.\<close>

definition ready :: "Config \<Rightarrow> bool" where
  "ready c \<longleftrightarrow> concatFunc c \<noteq> None \<and> HashFunc c \<noteq> None"

text \<open>The argument record that \<open>updateProofsParallel\<close> builds for worker \<open>w\<close>.\<close>

definition updateProof_args :: "bytes list \<Rightarrow> nat \<Rightarrow> nat \<Rightarrow> nat \<Rightarrow> nat \<Rightarrow> poolWorkerArgs" where
  "updateProof_args buf step bufLen nr w = zero_args\<lparr>byteField1 := buf, intField1 := 2 * w,
     intField2 := 2 ^ step, intField3 := step, intField4 := bufLen, intField5 := nr\<rparr>"


text \<open>The argument records that \<open>proofGenParallel\<close> and \<open>computeTreeNodeParallel\<close> build.\<close>

definition proofGen_args :: "bytes list \<Rightarrow> nat \<Rightarrow> nat \<Rightarrow> nat \<Rightarrow> poolWorkerArgs" where
  "proofGen_args buf prevLen nr w = zero_args\<lparr>byteField1 := buf, intField1 := 2 * w,
     intField2 := prevLen, intField3 := nr\<rparr>"

definition treeBuild_args :: "nat \<Rightarrow> nat \<Rightarrow> nat \<Rightarrow> nat \<Rightarrow> poolWorkerArgs" where
  "treeBuild_args prevLen nr depth w = zero_args\<lparr>intField1 := 2 * w,
     intField2 := prevLen, intField3 := nr, intField4 := depth\<rparr>"

text \<open>The indices that a handler's loop visits, read from its argument record.\<close>

definition arg_indices :: "poolWorkerArgs \<Rightarrow> nat set" where
  "arg_indices arg = set (strided (intField1 arg) (intField2 arg) (2 * intField3 arg))"


text \<open>
  The state of the streamed construction before step \<open>i\<close>: the buffer holds level
  \<open>i - 1\<close> in its first \<open>prevLen\<close> slots, and the proofs hold the siblings of the levels
  below \<open>i\<close>.
\<close>

definition streamed :: "(bytes \<Rightarrow> bytes \<Rightarrow> (error + bytes) option) \<Rightarrow> bytes list \<Rightarrow> MerkleTree
    \<Rightarrow> nat \<Rightarrow> MerkleTree \<Rightarrow> bytes list \<Rightarrow> nat \<Rightarrow> bool" where
  "streamed H leaves m0 i m buf prevLen \<longleftrightarrow>
     prevLen = length (level H leaves (i - 1)) \<and> prevLen \<le> length buf \<and>
     take prevLen buf = level H leaves (i - 1) \<and>
     m = m0\<lparr>Proofs := map (proof_of H leaves i) [0 ..< length leaves]\<rparr>"


text \<open>
  The state of the tree-retained construction before level \<open>i + 1\<close> is built: the
  retained levels up to \<open>i\<close> are the levels of the tree.
\<close>

definition built :: "(bytes \<Rightarrow> bytes \<Rightarrow> (error + bytes) option) \<Rightarrow> bytes list \<Rightarrow> MerkleTree
    \<Rightarrow> nat \<Rightarrow> MerkleTree \<Rightarrow> nat \<Rightarrow> bool" where
  "built H leaves m0 i m prevLen \<longleftrightarrow>
     (\<exists>ns. m = m0\<lparr>nodes := ns\<rparr> \<and> length ns = Depth m0 \<and>
           (\<forall>k\<le>i. ns ! k = level H leaves k)) \<and>
     prevLen = length (level H leaves i)"

text \<open>A tree whose level \<open>d\<close> has been replaced.\<close>

definition with_level :: "MerkleTree \<Rightarrow> nat \<Rightarrow> bytes list \<Rightarrow> MerkleTree" where
  "with_level m d lv = m\<lparr>nodes := (nodes m)[d := lv]\<rparr>"


text \<open>The argument record that \<open>leafGenParallel\<close> builds for worker \<open>w\<close>, and its indices.\<close>

definition leafGen_args :: "DataBlock list \<Rightarrow> nat \<Rightarrow> nat \<Rightarrow> poolWorkerArgs" where
  "leafGen_args blocks nr w = zero_args\<lparr>dataBlockField := blocks, intField1 := w,
     intField2 := length blocks, intField3 := nr\<rparr>"

definition leaf_indices :: "poolWorkerArgs \<Rightarrow> nat set" where
  "leaf_indices arg = set (strided (intField1 arg) (intField2 arg) (intField3 arg))"

text \<open>
  What \<open>New\<close> returns when nothing fails, as a function of its arguments: the
  configuration is that of \<open>New_init\<close>, the leaves are the digests of the blocks, and
  the mode decides which of the index, the levels and the proofs are there.
\<close>

definition New_H :: "runtime \<Rightarrow> Config option \<Rightarrow> DataBlock list
    \<Rightarrow> bytes \<Rightarrow> bytes \<Rightarrow> (error + bytes) option" where
  "New_H rt config blocks = hashPair (Config (New_init rt config blocks))"

definition New_leaves :: "runtime \<Rightarrow> Config option \<Rightarrow> DataBlock list \<Rightarrow> bytes list" where
  "New_leaves rt config blocks = map (leaf_of (Config (New_init rt config blocks))) blocks"

definition New_spec :: "runtime \<Rightarrow> Config option \<Rightarrow> DataBlock list \<Rightarrow> MerkleTree" where
  "New_spec rt config blocks =
     (let m = New_init rt config blocks;
          H = New_H rt config blocks;
          leaves = New_leaves rt config blocks;
          md = Mode (Config m)
      in m\<lparr>leafMap := (if md = ModeProofGen then Map.empty else index_of leaves),
           nodes := (if md = ModeProofGen then [] else map (level H leaves) [0 ..< Depth m]),
           Root := root_of H leaves (Depth m),
           Leaves := leaves,
           Proofs := (if md = ModeTreeBuild then []
                      else map (proof_of H leaves (Depth m)) [0 ..< length leaves])\<rparr>)"

text \<open>The condition under which nothing fails.\<close>

definition New_ok :: "runtime \<Rightarrow> Config option \<Rightarrow> DataBlock list \<Rightarrow> bool" where
  "New_ok rt config blocks =
     (let m = New_init rt config blocks;
          H = New_H rt config blocks;
          leaves = New_leaves rt config blocks
      in list_all (leaf_ok (Config m)) blocks \<and>
         (Mode (Config m) = ModeProofGen \<or> Mode (Config m) = ModeTreeBuild \<or>
          Mode (Config m) = ModeProofGenAndTreeBuild) \<and>
         levels_ok H leaves (Depth m) \<and> root_ok H leaves (Depth m))"

section \<open>Sample data\<close>

text \<open>
  A runtime, blocks and configurations on which the theorems are instantiated. The
  sample hash function prefixes its input with a byte, so that it never fails and
  distinct inputs have distinct digests; \<open>short_hash\<close> accepts inputs of one byte only,
  so that it digests a one-byte block and fails on every concatenated pair.
\<close>

definition sample_hash :: TypeHashFunc where
  "sample_hash x = Inr (1 # x)"

definition short_hash :: TypeHashFunc where
  "short_hash x = (if length x \<le> 1 then Inr x else Inl ''input too long'')"

definition sample_rt :: runtime where
  "sample_rt = \<lparr>DefaultHashFunc = sample_hash, DefaultHashFuncParallel = sample_hash, NumCPU = 2\<rparr>"

definition sample_block :: "nat \<Rightarrow> DataBlock" where
  "sample_block n = DataBlock (Inr [of_nat n])"

definition failing_block :: DataBlock where
  "failing_block = DataBlock (Inl ''cannot serialize'')"

definition sample_blocks :: "DataBlock list" where
  "sample_blocks = map sample_block [10, 20, 30, 40, 50]"

definition sample_config :: "int \<Rightarrow> bool \<Rightarrow> Config" where
  "sample_config md par = new_Config\<lparr>Mode := md, RunInParallel := par\<rparr>"

definition sample_tree :: "int \<Rightarrow> bool \<Rightarrow> MerkleTree" where
  "sample_tree md par = New_spec sample_rt (Some (sample_config md par)) sample_blocks"

section \<open>Loops, frames and the levels of the tree\<close>

lemma bits_Len_bounds: "0 < n \<Longrightarrow> 2 ^ (bits_Len n - 1) \<le> n \<and> n < 2 ^ bits_Len n"
proof (induction n rule: bits_Len.induct)
  case (1 n)
  show ?case
  proof (cases "n div 2 = 0")
    case True
    with "1.prems" have "n = Suc 0" by presburger
    then show ?thesis by (simp add: bits_Len.simps [of "Suc 0"] bits_Len.simps [of 0])
  next
    case False
    with "1.IH" "1.prems" have ih: "2 ^ (bits_Len (n div 2) - 1) \<le> n div 2" "n div 2 < 2 ^ bits_Len (n div 2)"
      by auto
    have pos: "0 < bits_Len (n div 2)" using False by (simp add: bits_Len.simps [of "n div 2"])
    have eq: "bits_Len n = Suc (bits_Len (n div 2))" using "1.prems" by (simp add: bits_Len.simps [of n])
    have p2: "(2::nat) ^ (bits_Len n - 1) = 2 * 2 ^ (bits_Len (n div 2) - 1)"
      using pos eq by (cases "bits_Len (n div 2)") auto
    have "2 * 2 ^ (bits_Len (n div 2) - 1) \<le> 2 * (n div 2)" using ih(1) by simp
    also have "\<dots> \<le> n" by simp
    finally have lo: "2 ^ (bits_Len n - 1) \<le> n" using p2 by simp
    have "n < 2 * (n div 2) + 2" by presburger
    also have "\<dots> \<le> 2 * 2 ^ bits_Len (n div 2)" using ih(2) by simp
    finally have hi: "n < 2 ^ bits_Len n" using eq by simp
    from lo hi show ?thesis by simp
  qed
qed


lemma upd_Proofs_refl: "upd_Proofs m m"
  unfolding upd_Proofs_def by (rule exI [of _ "Proofs m"]) simp

lemma upd_Proofs_trans: "upd_Proofs a b \<Longrightarrow> upd_Proofs b c \<Longrightarrow> upd_Proofs a c"
  unfolding upd_Proofs_def by auto

lemma upd_nodes_refl: "upd_nodes m m"
  unfolding upd_nodes_def by (rule exI [of _ "nodes m"]) simp

lemma upd_nodes_trans: "upd_nodes a b \<Longrightarrow> upd_nodes b c \<Longrightarrow> upd_nodes a c"
  unfolding upd_nodes_def by auto

lemma for_each_rel:
  assumes run: "for_each is body s = Some s'"
    and step: "\<And>i s s'. body i s = Some s' \<Longrightarrow> R s s'"
    and refl: "\<And>s. R s s" and trans: "\<And>a b c. R a b \<Longrightarrow> R b c \<Longrightarrow> R a c"
  shows "R s s'"
  using run
proof (induction "is" arbitrary: s)
  case Nil
  then show ?case using refl by simp
next
  case (Cons i "is")
  from Cons.prems obtain s1 where a: "body i s = Some s1" and b: "for_each is body s1 = Some s'"
    by (auto split: option.splits)
  from step [OF a] Cons.IH [OF b] show ?case by (rule trans)
qed

lemma for_loop_rel:
  assumes run: "for_loop is body s = Some (s', e)"
    and step: "\<And>i s s' e. body i s = Some (s', e) \<Longrightarrow> R s s'"
    and refl: "\<And>s. R s s" and trans: "\<And>a b c. R a b \<Longrightarrow> R b c \<Longrightarrow> R a c"
  shows "R s s'"
  using run
proof (induction "is" arbitrary: s)
  case Nil
  then show ?case using refl by simp
next
  case (Cons i "is")
  from Cons.prems obtain s1 e1 where a: "body i s = Some (s1, e1)"
    and b: "(e1 \<noteq> None \<and> s1 = s') \<or> (e1 = None \<and> for_loop is body s1 = Some (s', e))"
    by (auto split: option.splits prod.splits)
  from b show ?case
  proof
    assume "e1 \<noteq> None \<and> s1 = s'"
    with step [OF a] show ?thesis by simp
  next
    assume "e1 = None \<and> for_loop is body s1 = Some (s', e)"
    with step [OF a] Cons.IH show ?thesis using trans by blast
  qed
qed

lemma pool_Map_rel:
  assumes run: "pool_Map handler as s = Some (s', es)"
    and step: "\<And>a s s' e. handler a s = Some (s', e) \<Longrightarrow> R s s'"
    and refl: "\<And>s. R s s" and trans: "\<And>a b c. R a b \<Longrightarrow> R b c \<Longrightarrow> R a c"
  shows "R s s'"
  using run
proof (induction as arbitrary: s es)
  case Nil
  then show ?case using refl by simp
next
  case (Cons a as)
  from Cons.prems obtain s1 e1 es1 where a: "handler a s = Some (s1, e1)"
    and b: "pool_Map handler as s1 = Some (s', es1)"
    by (auto split: option.splits prod.splits)
  from step [OF a] Cons.IH [OF b] show ?case by (rule trans)
qed

lemma updatePairProofs_frame:
  assumes "updatePairProofs m buf idx batch step = Some m'"
  shows "upd_Proofs m m'"
proof -
  have l: "\<And>i s s'. updatePairProofs_left buf idx step i s = Some s' \<Longrightarrow> upd_Proofs s s'"
    by (auto simp: updatePairProofs_left_def upd_Proofs_def Option.bind_eq_Some_conv)
  have r: "\<And>i s s'. updatePairProofs_right buf idx i s = Some s' \<Longrightarrow> upd_Proofs s s'"
    by (auto simp: updatePairProofs_right_def upd_Proofs_def Option.bind_eq_Some_conv)
  from assms obtain m1 where a: "for_each [idx * batch ..< min (idx * batch + batch) (length (Proofs m))] (updatePairProofs_left buf idx step) m = Some m1"
    and b: "for_each [idx * batch + batch ..< min (idx * batch + batch + batch) (length (Proofs m1))] (updatePairProofs_right buf idx) m1 = Some m'"
    by (auto simp: updatePairProofs_def Let_def Option.bind_eq_Some_conv)
  have "upd_Proofs m m1"
    by (rule for_each_rel [OF a l upd_Proofs_refl upd_Proofs_trans])
  moreover have "upd_Proofs m1 m'"
    by (rule for_each_rel [OF b r upd_Proofs_refl upd_Proofs_trans])
  ultimately show ?thesis by (rule upd_Proofs_trans)
qed

lemma updateProofs_frame:
  assumes "updateProofs m buf bufLen step = Some m'"
  shows "upd_Proofs m m'"
  using assms unfolding updateProofs_def Let_def
  by (rule for_each_rel) (auto intro: updatePairProofs_frame upd_Proofs_refl upd_Proofs_trans)

lemma updateProofHandler_frame:
  assumes "updateProofHandler arg m = Some (m', e)"
  shows "upd_Proofs m m'"
proof -
  from assms obtain a b c where "for_each a (\<lambda>i mt. updatePairProofs mt (byteField1 arg) i b c) m = Some m'"
    by (auto simp: updateProofHandler_def Let_def split: if_splits option.splits)
  then show ?thesis
    by (rule for_each_rel) (auto intro: updatePairProofs_frame upd_Proofs_refl upd_Proofs_trans)
qed

lemma updateProofsParallel_frame:
  assumes "updateProofsParallel m buf bufLen step = Some m'"
  shows "upd_Proofs m m'"
proof -
  from assms obtain as es where "pool_Map updateProofHandler as m = Some (m', es)"
    by (auto simp: updateProofsParallel_def Let_def split: if_splits)
  then show ?thesis
    by (rule pool_Map_rel) (auto intro: updateProofHandler_frame upd_Proofs_refl upd_Proofs_trans)
qed


subsection \<open>The indices of a strided loop\<close>

lemma strided_set:
  "0 < k \<Longrightarrow> set (strided a n k) = {i. a \<le> i \<and> i < n \<and> k dvd (i - a)}"
proof (induction a n k rule: strided.induct)
  case (1 start stop stride)
  show ?case
  proof (cases "stop \<le> start")
    case True
    then show ?thesis by (auto simp: strided.simps [of start stop stride])
  next
    case False
    with "1.prems" have ih: "set (strided (start + stride) stop stride) =
        {i. start + stride \<le> i \<and> i < stop \<and> stride dvd (i - (start + stride))}"
      using "1.IH" by simp
    have eq: "strided start stop stride = start # strided (start + stride) stop stride"
      using False "1.prems" by (simp add: strided.simps [of start stop stride])
    have "{i. start \<le> i \<and> i < stop \<and> stride dvd (i - start)} =
        insert start {i. start + stride \<le> i \<and> i < stop \<and> stride dvd (i - (start + stride))}"
      (is "?L = insert start ?R")
    proof (rule set_eqI)
      fix i
      show "i \<in> ?L \<longleftrightarrow> i \<in> insert start ?R"
      proof
        assume "i \<in> ?L"
        then have a: "start \<le> i" "i < stop" "stride dvd (i - start)" by auto
        show "i \<in> insert start ?R"
        proof (cases "i = start")
          case True
          then show ?thesis by simp
        next
          case False
          with a obtain q where q: "i - start = stride * q" by (auto elim: dvdE)
          with False a have "q \<noteq> 0" by (cases q) auto
          then obtain q' where q': "q = Suc q'" by (cases q) auto
          with q a have "i = start + stride + stride * q'" by simp
          then show ?thesis using a by simp
        qed
      next
        assume "i \<in> insert start ?R"
        then show "i \<in> ?L"
        proof
          assume "i = start"
          with False show ?thesis by simp
        next
          assume "i \<in> ?R"
          then have a: "start + stride \<le> i" "i < stop" "stride dvd (i - (start + stride))" by auto
          then obtain q where "i - (start + stride) = stride * q" by (auto elim: dvdE)
          with a have "i - start = stride * Suc q" by simp
          then have "stride dvd (i - start)" by (metis dvd_triv_left)
          with a show ?thesis by simp
        qed
      qed
    qed
    with ih eq show ?thesis by simp
  qed
qed

lemma strided_distinct: "0 < k \<Longrightarrow> distinct (strided a n k)"
proof (induction a n k rule: strided.induct)
  case (1 start stop stride)
  show ?case
  proof (cases "stop \<le> start")
    case True
    then show ?thesis by (simp add: strided.simps [of start stop stride])
  next
    case False
    then have eq: "strided start stop stride = start # strided (start + stride) stop stride"
      using "1.prems" by (simp add: strided.simps [of start stop stride])
    have "start \<notin> set (strided (start + stride) stop stride)"
      using "1.prems" by (simp add: strided_set)
    with eq "1.IH" False "1.prems" show ?thesis by simp
  qed
qed

lemma strided_evens: "set (strided 0 n 2) = {i. even i \<and> i < n}"
  by (auto simp: strided_set)

lemma strided_one: "strided a n (Suc 0) = [a ..< n]"
proof (induction a n "Suc 0" rule: strided.induct)
  case (1 start stop)
  show ?case
  proof (cases "stop \<le> start")
    case True
    then show ?thesis by (simp add: strided.simps [of start stop])
  next
    case False
    with 1 show ?thesis by (simp add: strided.simps [of start stop] upt_conv_Cons)
  qed
qed

subsection \<open>Loops over slots\<close>

lemma for_loop_slots:
  assumes "slot_spec body (set is) Inv get slot val ok (length (get s))"
    and "Inv s" and "inj_on slot (set is)" and "\<forall>i\<in>set is. slot i < length (get s)"
  shows "\<exists>s' e. for_loop is body s = Some (s', e) \<and> Inv s' \<and>
           slot_post (get s) (set is) slot val ok (get s') e"
  using assms
proof (induction "is" arbitrary: s)
  case Nil
  then show ?case by (simp add: slot_post_def)
next
  case (Cons i "is")
  let ?L = "length (get s)"
  from Cons.prems(1,2) obtain s1 e1 where b: "body i s = Some (s1, e1)" and inv1: "Inv s1"
    and len1: "length (get s1) = ?L" and e1: "e1 = None \<longleftrightarrow> ok i"
    and upd: "ok i \<longrightarrow> get s1 = (get s)[slot i := val i]"
    unfolding slot_spec_def by (metis list.set_intros(1))
  show ?case
  proof (cases "ok i")
    case False
    with e1 obtain e where "e1 = Some e" by auto
    with b inv1 len1 False show ?thesis by (auto simp: slot_post_def)
  next
    case True
    with e1 have e1n: "e1 = None" by simp
    have spec': "slot_spec body (set is) Inv get slot val ok (length (get s1))"
      using Cons.prems(1) len1 unfolding slot_spec_def by auto
    have inj': "inj_on slot (set is)" using Cons.prems(3) by (auto simp: inj_on_def)
    have rng': "\<forall>i\<in>set is. slot i < length (get s1)" using Cons.prems(4) len1 by simp
    from Cons.IH [OF spec' inv1 inj' rng'] obtain s' e where r: "for_loop is body s1 = Some (s', e)"
      and inv': "Inv s'" and post: "slot_post (get s1) (set is) slot val ok (get s') e"
      by blast
    have run: "for_loop (i # is) body s = Some (s', e)" using b e1n r by simp
    have "slot_post (get s) (set (i # is)) slot val ok (get s') e"
      unfolding slot_post_def
    proof (intro conjI impI ballI allI)
      show "length (get s') = length (get s)" using post len1 by (simp add: slot_post_def)
      show "e = None \<longleftrightarrow> (\<forall>i\<in>set (i # is). ok i)" using post True by (simp add: slot_post_def)
    next
      fix j assume all: "\<forall>i\<in>set (i # is). ok i" and j: "j \<in> set (i # is)"
      from all post have p1: "\<forall>i\<in>set is. get s' ! slot i = val i"
        and p2: "\<forall>k. k \<notin> slot ` set is \<longrightarrow> get s' ! k = get s1 ! k"
        by (auto simp: slot_post_def)
      show "get s' ! slot j = val j"
      proof (cases "j \<in> set is")
        case True
        with p1 show ?thesis by simp
      next
        case False
        with j have ji: "j = i" by simp
        have "slot i \<notin> slot ` set is"
        proof
          assume "slot i \<in> slot ` set is"
          then obtain i' where "i' \<in> set is" "slot i = slot i'" by auto
          with Cons.prems(3) have "i = i'" by (auto simp: inj_on_def)
          with \<open>i' \<in> set is\<close> False ji show False by simp
        qed
        with p2 have "get s' ! slot i = get s1 ! slot i" by simp
        moreover have "slot i < length (get s)" using Cons.prems(4) by simp
        moreover have "get s1 = (get s)[slot i := val i]" using upd True by simp
        ultimately show ?thesis using ji by simp
      qed
    next
      fix k assume all: "\<forall>i\<in>set (i # is). ok i" and k: "k \<notin> slot ` set (i # is)"
      from all post have p2: "\<forall>k. k \<notin> slot ` set is \<longrightarrow> get s' ! k = get s1 ! k"
        by (auto simp: slot_post_def)
      from k have "k \<notin> slot ` set is" "k \<noteq> slot i" by auto
      with p2 upd True show "get s' ! k = get s ! k" by simp
    qed
    with run inv' show ?thesis by blast
  qed
qed


lemma first_error_Cons: "first_error (e # es) = (case e of None \<Rightarrow> first_error es | Some x \<Rightarrow> Some x)"
  by (cases e) auto

lemma pool_Map_slots:
  assumes H: "\<And>w s. w \<in> set ws \<Longrightarrow> Inv s \<Longrightarrow> length (get s) = L \<Longrightarrow>
      \<exists>s' e. handler w s = Some (s', e) \<and> Inv s' \<and>
        slot_post (get s) (idxs w) slot val ok (get s') e"
    and "Inv s" and "length (get s) = L"
    and "inj_on slot (\<Union>w\<in>set ws. idxs w)"
    and "\<forall>w\<in>set ws. \<forall>i\<in>idxs w. slot i < L"
  shows "\<exists>s' es. pool_Map handler ws s = Some (s', es) \<and> Inv s' \<and>
           slot_post (get s) (\<Union>w\<in>set ws. idxs w) slot val ok (get s') (first_error es)"
  using assms
proof (induction ws arbitrary: s)
  case Nil
  then show ?case by (simp add: slot_post_def)
next
  case (Cons w ws)
  from Cons.prems(1) [of w s] Cons.prems(2,3) obtain s1 e1 where
    h: "handler w s = Some (s1, e1)" and inv1: "Inv s1"
    and post1: "slot_post (get s) (idxs w) slot val ok (get s1) e1"
    by auto
  from post1 Cons.prems(3) have len1: "length (get s1) = L" by (simp add: slot_post_def)
  have inj': "inj_on slot (\<Union>w\<in>set ws. idxs w)"
    using Cons.prems(4) by (auto simp: inj_on_def)
  have "\<exists>s' es. pool_Map handler ws s1 = Some (s', es) \<and> Inv s' \<and>
           slot_post (get s1) (\<Union>w\<in>set ws. idxs w) slot val ok (get s') (first_error es)"
    by (rule Cons.IH [OF _ inv1 len1 inj']) (use Cons.prems(1,5) in auto)
  then obtain s' es where r: "pool_Map handler ws s1 = Some (s', es)" and inv': "Inv s'"
    and post: "slot_post (get s1) (\<Union>w\<in>set ws. idxs w) slot val ok (get s') (first_error es)"
    by blast
  have run: "pool_Map handler (w # ws) s = Some (s', e1 # es)" using h r by simp
  let ?R = "\<Union>w\<in>set ws. idxs w"
  have "slot_post (get s) (\<Union>w\<in>set (w # ws). idxs w) slot val ok (get s') (first_error (e1 # es))"
    unfolding slot_post_def
  proof (intro conjI impI ballI allI)
    show "length (get s') = length (get s)" using post post1 by (simp add: slot_post_def)
    show "first_error (e1 # es) = None \<longleftrightarrow> (\<forall>i\<in>\<Union>w\<in>set (w # ws). idxs w. ok i)"
      using post post1 by (cases e1) (auto simp: slot_post_def)
  next
    fix j assume all: "\<forall>i\<in>\<Union>w\<in>set (w # ws). idxs w. ok i" and j: "j \<in> (\<Union>w\<in>set (w # ws). idxs w)"
    from all post have p1: "\<forall>i\<in>?R. get s' ! slot i = val i"
      and p2: "\<forall>k. k \<notin> slot ` ?R \<longrightarrow> get s' ! k = get s1 ! k"
      by (auto simp: slot_post_def)
    from all post1 have q1: "\<forall>i\<in>idxs w. get s1 ! slot i = val i"
      by (auto simp: slot_post_def)
    show "get s' ! slot j = val j"
    proof (cases "j \<in> ?R")
      case True
      with p1 show ?thesis by blast
    next
      case False
      with j have jw: "j \<in> idxs w" by auto
      have "slot j \<notin> slot ` ?R"
      proof
        assume "slot j \<in> slot ` ?R"
        then obtain i' where i': "i' \<in> ?R" "slot j = slot i'" by auto
        with Cons.prems(4) jw have "j = i'" unfolding inj_on_def by auto
        with i' False show False by simp
      qed
      with p2 q1 jw show ?thesis by simp
    qed
  next
    fix k assume all: "\<forall>i\<in>\<Union>w\<in>set (w # ws). idxs w. ok i"
      and k: "k \<notin> slot ` (\<Union>w\<in>set (w # ws). idxs w)"
    from all post have p2: "\<forall>k. k \<notin> slot ` ?R \<longrightarrow> get s' ! k = get s1 ! k"
      by (auto simp: slot_post_def)
    from all post1 have q2: "\<forall>k. k \<notin> slot ` idxs w \<longrightarrow> get s1 ! k = get s ! k"
      by (auto simp: slot_post_def)
    from k have "k \<notin> slot ` ?R" "k \<notin> slot ` idxs w" by auto
    with p2 q2 show "get s' ! k = get s ! k" by simp
  qed
  with run inv' show ?case by blast
qed

subsection \<open>Loops over a range, with an invariant\<close>

lemma for_loop_upt:
  assumes "I a s" and "a \<le> b"
    and step: "\<And>i s. a \<le> i \<Longrightarrow> i < b \<Longrightarrow> I i s \<Longrightarrow>
      \<exists>s' e. body i s = Some (s', e) \<and> (e = None \<longleftrightarrow> ok i) \<and> (e = None \<longrightarrow> I (Suc i) s')
        \<and> (e \<noteq> None \<longrightarrow> F s')"
  shows "\<exists>s' e. for_loop [a ..< b] body s = Some (s', e) \<and>
           (e = None \<longleftrightarrow> (\<forall>i. a \<le> i \<and> i < b \<longrightarrow> ok i)) \<and> (e = None \<longrightarrow> I b s') \<and>
           (e \<noteq> None \<longrightarrow> F s')"
  using assms
proof (induction "b - a" arbitrary: a s)
  case 0
  then show ?case by auto
next
  case (Suc n)
  then have lt: "a < b" by simp
  then have eq: "[a ..< b] = a # [Suc a ..< b]" by (simp add: upt_conv_Cons)
  from Suc.prems(3) [of a s] Suc.prems(1) lt obtain s1 e1 where
    b: "body a s = Some (s1, e1)" and e1: "e1 = None \<longleftrightarrow> ok a"
    and i1: "e1 = None \<longrightarrow> I (Suc a) s1" and f1: "e1 \<noteq> None \<longrightarrow> F s1"
    by auto
  show ?case
  proof (cases e1)
    case (Some x)
    with b eq e1 f1 lt show ?thesis by auto
  next
    case None
    have n: "n = b - Suc a" using Suc.hyps(2) by simp
    have "\<exists>s' e. for_loop [Suc a ..< b] body s1 = Some (s', e) \<and>
           (e = None \<longleftrightarrow> (\<forall>i. Suc a \<le> i \<and> i < b \<longrightarrow> ok i)) \<and> (e = None \<longrightarrow> I b s') \<and>
           (e \<noteq> None \<longrightarrow> F s')"
    proof (rule Suc.hyps(1) [OF n])
      show "I (Suc a) s1" using i1 None by simp
      show "Suc a \<le> b" using lt by simp
      fix i s assume "Suc a \<le> i" "i < b" "I i s"
      then show "\<exists>s' e. body i s = Some (s', e) \<and> (e = None \<longleftrightarrow> ok i) \<and>
          (e = None \<longrightarrow> I (Suc i) s') \<and> (e \<noteq> None \<longrightarrow> F s')"
        using Suc.prems(3) [of i s] by simp
    qed
    then obtain s' e where r: "for_loop [Suc a ..< b] body s1 = Some (s', e)"
      and e: "e = None \<longleftrightarrow> (\<forall>i. Suc a \<le> i \<and> i < b \<longrightarrow> ok i)"
      and ib: "e = None \<longrightarrow> I b s'" and fb: "e \<noteq> None \<longrightarrow> F s'"
      by blast
    have run: "for_loop [a ..< b] body s = Some (s', e)" using eq b None r by simp
    have "(\<forall>i. a \<le> i \<and> i < b \<longrightarrow> ok i) \<longleftrightarrow> ok a \<and> (\<forall>i. Suc a \<le> i \<and> i < b \<longrightarrow> ok i)"
      using lt by (metis Suc_leI le_neq_implies_less Suc_leD le_refl)
    with run e e1 None ib fb show ?thesis by auto
  qed
qed

lemma for_each_upt:
  assumes "I a s" and "a \<le> b"
    and step: "\<And>i s. a \<le> i \<Longrightarrow> i < b \<Longrightarrow> I i s \<Longrightarrow> \<exists>s'. body i s = Some s' \<and> I (Suc i) s'"
  shows "\<exists>s'. for_each [a ..< b] body s = Some s' \<and> I b s'"
  using assms
proof (induction "b - a" arbitrary: a s)
  case 0
  then show ?case by simp
next
  case (Suc n)
  then have lt: "a < b" by simp
  then have eq: "[a ..< b] = a # [Suc a ..< b]" by (simp add: upt_conv_Cons)
  from Suc.prems(3) [of a s] Suc.prems(1) lt obtain s1 where
    b: "body a s = Some s1" and i1: "I (Suc a) s1"
    by auto
  have n: "n = b - Suc a" using Suc.hyps(2) by simp
  have "\<exists>s'. for_each [Suc a ..< b] body s1 = Some s' \<and> I b s'"
  proof (rule Suc.hyps(1) [OF n i1])
    show "Suc a \<le> b" using lt by simp
    fix i s assume "Suc a \<le> i" "i < b" "I i s"
    then show "\<exists>s'. body i s = Some s' \<and> I (Suc i) s'"
      using Suc.prems(3) [of i s] by simp
  qed
  with eq b show ?case by auto
qed

subsection \<open>Recording siblings: \<open>updatePairProofs\<close> and \<open>updateProofs\<close>\<close>

lemma div_eq_iff_range:
  fixes j :: nat
  assumes "0 < B"
  shows "j div B = q \<longleftrightarrow> q * B \<le> j \<and> j < q * B + B"
proof -
  have "j div B = q \<longleftrightarrow> q \<le> j div B \<and> j div B < Suc q" by auto
  also have "\<dots> \<longleftrightarrow> q * B \<le> j \<and> j < Suc q * B"
    using assms by (simp add: less_eq_div_iff_mult_less_eq div_less_iff_less_mult)
  finally show ?thesis by (simp add: add.commute)
qed

lemma for_each_point_update:
  assumes body: "\<And>i m. i < length (Proofs m) \<Longrightarrow>
      body i m = Some (m\<lparr>Proofs := (Proofs m)[i := f (Proofs m ! i)]\<rparr>)"
    and b: "b \<le> length (Proofs m)"
  shows "for_each [a ..< b] body m =
    Some (m\<lparr>Proofs := map (\<lambda>j. if a \<le> j \<and> j < b then f (Proofs m ! j) else Proofs m ! j)
                         [0 ..< length (Proofs m)]\<rparr>)"
proof (cases "a \<le> b")
  case False
  have X: "map (\<lambda>j. if a \<le> j \<and> j < b then f (Proofs m ! j) else Proofs m ! j)
      [0 ..< length (Proofs m)] = Proofs m"
    using False by (intro nth_equalityI) auto
  show ?thesis unfolding X using False by simp
next
  case True
  let ?P = "\<lambda>i. map (\<lambda>j. if a \<le> j \<and> j < i then f (Proofs m ! j) else Proofs m ! j)
      [0 ..< length (Proofs m)]"
  let ?I = "\<lambda>i s. s = m\<lparr>Proofs := ?P i\<rparr>"
  have "\<exists>s'. for_each [a ..< b] body m = Some s' \<and> ?I b s'"
  proof (rule for_each_upt [where I = ?I, OF _ True])
    have "?P a = Proofs m" by (intro nth_equalityI) auto
    then show "?I a m" by simp
  next
    fix i s assume i: "a \<le> i" "i < b" and s: "?I i s"
    from i b have il: "i < length (Proofs m)" by simp
    have "body i s = Some (s\<lparr>Proofs := (Proofs s)[i := f (Proofs s ! i)]\<rparr>)"
      using body [of i s] il s by simp
    moreover have "(?P i)[i := f (?P i ! i)] = ?P (Suc i)"
      using il i by (intro nth_equalityI) (auto simp: nth_list_update less_Suc_eq)
    ultimately show "\<exists>s'. body i s = Some s' \<and> ?I (Suc i) s'" using s by simp
  qed
  then show ?thesis by auto
qed

lemma updatePairProofs_left_step:
  assumes "idx + 1 < length buf" and "i < length (Proofs m)"
  shows "updatePairProofs_left buf idx step i m =
    Some (m\<lparr>Proofs := (Proofs m)[i := (Proofs m ! i)\<lparr>Siblings := Siblings (Proofs m ! i) @ [buf ! (idx + 1)],
        Path := Path (Proofs m ! i) + push_bit step 1\<rparr>]\<rparr>)"
  using assms by (simp add: updatePairProofs_left_def nth_opt_def upd_opt_def)

lemma updatePairProofs_right_step:
  assumes "idx < length buf" and "i < length (Proofs m)"
  shows "updatePairProofs_right buf idx i m =
    Some (m\<lparr>Proofs := (Proofs m)[i := (Proofs m ! i)\<lparr>Siblings := Siblings (Proofs m ! i) @ [buf ! idx]\<rparr>]\<rparr>)"
  using assms by (simp add: updatePairProofs_right_def nth_opt_def upd_opt_def)

lemma updatePairProofs_eq:
  assumes buf: "idx + 1 < length buf" and ev: "even idx"
  shows "updatePairProofs m buf idx (2 ^ step) step =
    Some (m\<lparr>Proofs := record_pairs {idx} buf step (Proofs m)\<rparr>)"
proof -
  let ?B = "(2::nat) ^ step"
  let ?ps = "Proofs m"
  let ?n = "length ?ps"
  let ?fl = "\<lambda>p. p\<lparr>Siblings := Siblings p @ [buf ! (idx + 1)], Path := Path p + push_bit step 1\<rparr>"
  let ?fr = "\<lambda>p. p\<lparr>Siblings := Siblings p @ [buf ! idx]\<rparr>"
  let ?a = "idx * ?B" let ?b = "min (idx * ?B + ?B) ?n"
  let ?ps1 = "map (\<lambda>j. if ?a \<le> j \<and> j < ?b then ?fl (?ps ! j) else ?ps ! j) [0 ..< ?n]"
  let ?m1 = "m\<lparr>Proofs := ?ps1\<rparr>"
  have l: "for_each [?a ..< ?b] (updatePairProofs_left buf idx step) m = Some ?m1"
    by (rule for_each_point_update [where f = ?fl])
       (use buf in \<open>auto simp: updatePairProofs_left_step\<close>)
  let ?a2 = "idx * ?B + ?B" let ?b2 = "min (idx * ?B + ?B + ?B) ?n"
  let ?ps2 = "map (\<lambda>j. if ?a2 \<le> j \<and> j < ?b2 then ?fr (?ps1 ! j) else ?ps1 ! j) [0 ..< ?n]"
  have r0: "for_each [?a2 ..< min (?a2 + ?B) (length (Proofs ?m1))] (updatePairProofs_right buf idx) ?m1 =
      Some (?m1\<lparr>Proofs := map (\<lambda>j. if ?a2 \<le> j \<and> j < min (?a2 + ?B) (length (Proofs ?m1))
         then ?fr (Proofs ?m1 ! j) else Proofs ?m1 ! j) [0 ..< length (Proofs ?m1)]\<rparr>)"
    by (rule for_each_point_update [where f = ?fr])
       (use buf in \<open>auto simp: updatePairProofs_right_step\<close>)
  have r: "for_each [?a2 ..< ?b2] (updatePairProofs_right buf idx) ?m1 = Some (m\<lparr>Proofs := ?ps2\<rparr>)"
    using r0 by simp
  have final: "?ps2 = record_pairs {idx} buf step ?ps"
    unfolding record_pairs_def
  proof (intro nth_equalityI)
    show "length ?ps2 = length (map (\<lambda>j. if 2 * (j div ?B div 2) \<in> {idx}
        then record_sibling buf step j (?ps ! j) else ?ps ! j) [0 ..< ?n])" by simp
  next
    fix j assume "j < length ?ps2"
    then have j: "j < ?n" by simp
    have B: "0 < ?B" by simp
    have L: "(?a \<le> j \<and> j < ?b) \<longleftrightarrow> j div ?B = idx"
      using j by (simp add: div_eq_iff_range [OF B])
    have R: "(?a2 \<le> j \<and> j < ?b2) \<longleftrightarrow> j div ?B = Suc idx"
      using j by (simp add: div_eq_iff_range [OF B] add.commute add.left_commute)
    have "\<And>p. 2 * (p div 2) = idx \<longleftrightarrow> p = idx \<or> p = Suc idx"
      using ev by presburger
    then have P: "2 * (j div ?B div 2) = idx \<longleftrightarrow> j div ?B = idx \<or> j div ?B = Suc idx" .
    show "?ps2 ! j = map (\<lambda>j. if 2 * (j div ?B div 2) \<in> {idx}
        then record_sibling buf step j (?ps ! j) else ?ps ! j) [0 ..< ?n] ! j"
    proof (cases "j div ?B = idx")
      case True
      then have "\<not> (?a2 \<le> j \<and> j < ?b2)" using R by simp
      then have "?ps2 ! j = ?fl (?ps ! j)" using j L True by auto
      moreover have "record_sibling buf step j (?ps ! j) = ?fl (?ps ! j)"
        using True ev by (simp add: record_sibling_def)
      ultimately show ?thesis using j P True by simp
    next
      case False
      note nl = False
      show ?thesis
      proof (cases "j div ?B = Suc idx")
        case True
        then have "?ps2 ! j = ?fr (?ps ! j)" using j L R nl by auto
        moreover have "record_sibling buf step j (?ps ! j) = ?fr (?ps ! j)"
          using True ev by (simp add: record_sibling_def)
        ultimately show ?thesis using j P True by simp
      next
        case False
        then have "?ps2 ! j = ?ps ! j" using j L R nl by auto
        then show ?thesis using j P False nl by simp
      qed
    qed
  qed
  have "updatePairProofs m buf idx ?B step = Some (m\<lparr>Proofs := ?ps2\<rparr>)"
    unfolding updatePairProofs_def Let_def using l r by simp
  with final show ?thesis by simp
qed

lemma record_pairs_length [simp]: "length (record_pairs S buf step ps) = length ps"
  by (simp add: record_pairs_def)

lemma record_pairs_empty [simp]: "record_pairs {} buf step ps = ps"
  by (auto simp: record_pairs_def intro: nth_equalityI)

lemma record_pairs_union:
  assumes "S1 \<inter> S2 = {}"
  shows "record_pairs S2 buf step (record_pairs S1 buf step ps) = record_pairs (S1 \<union> S2) buf step ps"
  using assms by (intro nth_equalityI) (auto simp: record_pairs_def)

lemma for_each_updatePairProofs:
  assumes "distinct is" and "\<forall>i\<in>set is. even i \<and> i + 1 < length buf"
  shows "for_each is (\<lambda>i m. updatePairProofs m buf i (2 ^ step) step) m =
    Some (m\<lparr>Proofs := record_pairs (set is) buf step (Proofs m)\<rparr>)"
  using assms
proof (induction "is" arbitrary: m)
  case Nil
  then show ?case by simp
next
  case (Cons i "is")
  let ?m1 = "m\<lparr>Proofs := record_pairs {i} buf step (Proofs m)\<rparr>"
  have 1: "updatePairProofs m buf i (2 ^ step) step = Some ?m1"
    using Cons.prems by (intro updatePairProofs_eq) auto
  have 2: "for_each is (\<lambda>i m. updatePairProofs m buf i (2 ^ step) step) ?m1 =
    Some (?m1\<lparr>Proofs := record_pairs (set is) buf step (Proofs ?m1)\<rparr>)"
    using Cons.prems by (intro Cons.IH) auto
  have "record_pairs (set is) buf step (record_pairs {i} buf step (Proofs m)) =
      record_pairs ({i} \<union> set is) buf step (Proofs m)"
    using Cons.prems by (intro record_pairs_union) auto
  with 1 2 show ?case by simp
qed

lemma updateProofs_eq:
  assumes "\<forall>i. even i \<and> i < bufLen \<longrightarrow> i + 1 < length buf"
  shows "updateProofs m buf bufLen step =
    Some (m\<lparr>Proofs := record_pairs {i. even i \<and> i < bufLen} buf step (Proofs m)\<rparr>)"
proof -
  have "for_each (strided 0 bufLen 2) (\<lambda>i m. updatePairProofs m buf i (2 ^ step) step) m =
    Some (m\<lparr>Proofs := record_pairs (set (strided 0 bufLen 2)) buf step (Proofs m)\<rparr>)"
    using assms by (intro for_each_updatePairProofs) (auto simp: strided_distinct strided_evens)
  then show ?thesis by (simp add: updateProofs_def Let_def strided_evens)
qed


lemma strided_mod:
  assumes "0 < k" and "a < k" and "i \<in> set (strided a n k)"
  shows "i mod k = a" and "i < n"
proof -
  from assms have i: "a \<le> i" "i < n" "k dvd (i - a)" by (auto simp: strided_set)
  then obtain q where "i - a = k * q" by (auto elim: dvdE)
  with i have "i = a + k * q" by simp
  then show "i mod k = a" using assms(2) by simp
  show "i < n" by fact
qed

lemma strided_workers:
  assumes "0 < nr"
  shows "(\<Union>w\<in>{..<nr}. set (strided (2 * w) n (2 * nr))) = {i. even i \<and> i < n}"
proof (rule set_eqI)
  fix i
  show "i \<in> (\<Union>w\<in>{..<nr}. set (strided (2 * w) n (2 * nr))) \<longleftrightarrow> i \<in> {i. even i \<and> i < n}"
  proof
    assume "i \<in> (\<Union>w\<in>{..<nr}. set (strided (2 * w) n (2 * nr)))"
    then obtain w where w: "w < nr" "i \<in> set (strided (2 * w) n (2 * nr))" by auto
    then have "2 * w \<le> i" "i < n" "2 * nr dvd (i - 2 * w)" using assms by (auto simp: strided_set)
    then obtain q where "i - 2 * w = 2 * nr * q" by (auto elim: dvdE)
    with \<open>2 * w \<le> i\<close> have "i = 2 * w + 2 * nr * q" by simp
    then have "even i" by simp
    with \<open>i < n\<close> show "i \<in> {i. even i \<and> i < n}" by simp
  next
    assume "i \<in> {i. even i \<and> i < n}"
    then have i: "even i" "i < n" by auto
    then obtain h where h: "i = 2 * h" by (auto elim: evenE)
    let ?w = "h mod nr"
    have w: "?w < nr" using assms by simp
    have "h = nr * (h div nr) + ?w" by simp
    then have "i - 2 * ?w = 2 * nr * (h div nr)"
      using h by (metis add_diff_cancel_right' mult.assoc right_diff_distrib')
    then have "2 * nr dvd (i - 2 * ?w)" by simp
    moreover have "2 * ?w \<le> i" using h by (simp add: mod_le_divisor)
    ultimately have "i \<in> set (strided (2 * ?w) n (2 * nr))"
      using assms i by (simp add: strided_set)
    with w show "i \<in> (\<Union>w\<in>{..<nr}. set (strided (2 * w) n (2 * nr)))" by blast
  qed
qed

lemma strided_worker_even:
  assumes "0 < nr" and "i \<in> set (strided (2 * w) n (2 * nr))"
  shows "even i \<and> i < n"
proof -
  from assms have "2 * w \<le> i" "i < n" "2 * nr dvd (i - 2 * w)" by (auto simp: strided_set)
  then obtain q where "i - 2 * w = 2 * nr * q" by (auto elim: dvdE)
  with \<open>2 * w \<le> i\<close> have "i = 2 * w + 2 * nr * q" by simp
  then have "even i" by simp
  with \<open>i < n\<close> show ?thesis by simp
qed

lemma strided_workers_disjoint:
  assumes "0 < nr" and "w < nr" and "w' < nr" and "w \<noteq> w'"
  shows "set (strided (2 * w) n (2 * nr)) \<inter> set (strided (2 * w') n (2 * nr)) = {}"
proof -
  have "\<And>i. i \<in> set (strided (2 * w) n (2 * nr)) \<Longrightarrow> i \<in> set (strided (2 * w') n (2 * nr)) \<Longrightarrow> False"
  proof -
    fix i assume a: "i \<in> set (strided (2 * w) n (2 * nr))" and b: "i \<in> set (strided (2 * w') n (2 * nr))"
    have "i mod (2 * nr) = 2 * w" using assms a by (intro strided_mod(1) [of _ _ _ n]) auto
    moreover have "i mod (2 * nr) = 2 * w'" using assms b by (intro strided_mod(1) [of _ _ _ n]) auto
    ultimately show False using assms(4) by simp
  qed
  then show ?thesis by blast
qed


lemma updateProofHandler_eq:
  assumes "0 < nr" and "\<forall>i. even i \<and> i < bufLen \<longrightarrow> i + 1 < length buf"
  shows "updateProofHandler (updateProof_args buf step bufLen nr w) m =
    Some (m\<lparr>Proofs := record_pairs (set (strided (2 * w) bufLen (2 * nr))) buf step (Proofs m)\<rparr>, None)"
proof -
  have "for_each (strided (2 * w) bufLen (2 * nr)) (\<lambda>i m. updatePairProofs m buf i (2 ^ step) step) m =
    Some (m\<lparr>Proofs := record_pairs (set (strided (2 * w) bufLen (2 * nr))) buf step (Proofs m)\<rparr>)"
    using assms strided_worker_even [OF assms(1), of _ w bufLen]
    by (intro for_each_updatePairProofs) (auto simp: strided_distinct)
  then show ?thesis
    using assms(1) by (simp add: updateProofHandler_def updateProof_args_def zero_args_def)
qed

lemma pool_Map_updateProofHandler:
  assumes "0 < nr" and "\<forall>i. even i \<and> i < bufLen \<longrightarrow> i + 1 < length buf"
    and "distinct ws" and "\<forall>w\<in>set ws. w < nr"
  shows "pool_Map updateProofHandler (map (updateProof_args buf step bufLen nr) ws) m =
    Some (m\<lparr>Proofs := record_pairs (\<Union>w\<in>set ws. set (strided (2 * w) bufLen (2 * nr))) buf step (Proofs m)\<rparr>,
          replicate (length ws) None)"
  using assms(3,4)
proof (induction ws arbitrary: m)
  case Nil
  then show ?case by simp
next
  case (Cons w ws)
  let ?S = "\<lambda>w. set (strided (2 * w) bufLen (2 * nr))"
  let ?m1 = "m\<lparr>Proofs := record_pairs (?S w) buf step (Proofs m)\<rparr>"
  have 1: "updateProofHandler (updateProof_args buf step bufLen nr w) m = Some (?m1, None)"
    by (rule updateProofHandler_eq [OF assms(1,2)])
  have 2: "pool_Map updateProofHandler (map (updateProof_args buf step bufLen nr) ws) ?m1 =
    Some (?m1\<lparr>Proofs := record_pairs (\<Union>w\<in>set ws. ?S w) buf step (Proofs ?m1)\<rparr>,
          replicate (length ws) None)"
    using Cons.prems by (intro Cons.IH) auto
  have "?S w \<inter> (\<Union>w\<in>set ws. ?S w) = {}"
    using Cons.prems strided_workers_disjoint [OF assms(1), of w _ bufLen] by fastforce
  then have "record_pairs (\<Union>w\<in>set ws. ?S w) buf step (record_pairs (?S w) buf step (Proofs m)) =
      record_pairs (?S w \<union> (\<Union>w\<in>set ws. ?S w)) buf step (Proofs m)"
    by (rule record_pairs_union)
  with 1 2 show ?case by simp
qed

lemma updateProofsParallel_eq:
  assumes "0 < NumRoutines (Config m)" and "\<forall>i. even i \<and> i < bufLen \<longrightarrow> i + 1 < length buf"
  shows "updateProofsParallel m buf bufLen step =
    Some (m\<lparr>Proofs := record_pairs {i. even i \<and> i < bufLen} buf step (Proofs m)\<rparr>)"
proof (cases "bufLen = 0")
  case True
  then show ?thesis using assms(1) by (simp add: updateProofsParallel_def Let_def)
next
  case False
  define nr where "nr = (if nat (NumRoutines (Config m)) > bufLen then bufLen else nat (NumRoutines (Config m)))"
  have nr: "0 < nr" using False assms(1) by (simp add: nr_def)
  have "pool_Map updateProofHandler (map (updateProof_args buf step bufLen nr) [0 ..< nr]) m =
    Some (m\<lparr>Proofs := record_pairs (\<Union>w\<in>set [0 ..< nr]. set (strided (2 * w) bufLen (2 * nr))) buf step (Proofs m)\<rparr>,
          replicate (length [0 ..< nr]) None)"
    by (rule pool_Map_updateProofHandler [OF nr assms(2)]) auto
  moreover have "(\<Union>w\<in>set [0 ..< nr]. set (strided (2 * w) bufLen (2 * nr))) = {i. even i \<and> i < bufLen}"
    using strided_workers [OF nr, of bufLen] by (simp add: lessThan_atLeast0)
  moreover have "updateProofsParallel m buf bufLen step =
      map_option fst (pool_Map updateProofHandler (map (updateProof_args buf step bufLen nr) [0 ..< nr]) m)"
    using assms(1) unfolding updateProofsParallel_def Let_def nr_def updateProof_args_def
    by (simp cong: if_cong)
  ultimately show ?thesis by simp
qed

lemma updateProofsParallel_updateProofs:
  assumes "0 < NumRoutines (Config m)" and "\<forall>i. even i \<and> i < bufLen \<longrightarrow> i + 1 < length buf"
  shows "updateProofsParallel m buf bufLen step = updateProofs m buf bufLen step"
  using assms by (simp add: updateProofsParallel_eq updateProofs_eq)

subsection \<open>Hashing one level\<close>

lemma hashPair_ready:
  assumes "ready c"
  shows "(okp (hashPair c) a b \<and> hashPair c a b = Some (Inr (hp (hashPair c) a b))) \<or>
         (\<not> okp (hashPair c) a b \<and> (\<exists>e. hashPair c a b = Some (Inl e)))"
proof -
  from assms obtain cf h where "concatFunc c = Some cf" "HashFunc c = Some h"
    by (auto simp: ready_def)
  then have "hashPair c a b = Some (case h (cf a b) of Inl e \<Rightarrow> Inl (HashFailed e) | Inr d \<Rightarrow> Inr d)"
    by (simp add: hashPair_def)
  then show ?thesis by (cases "h (cf a b)") (auto simp: okp_def hp_def)
qed

lemma hashPair_ok: "ready c \<Longrightarrow> okp (hashPair c) a b \<Longrightarrow> hashPair c a b = Some (Inr (hp (hashPair c) a b))"
  using hashPair_ready [of c a b] by auto

lemma hashPair_fail: "ready c \<Longrightarrow> \<not> okp (hashPair c) a b \<Longrightarrow> \<exists>e. hashPair c a b = Some (Inl e)"
  using hashPair_ready [of c a b] by auto

text \<open>The sequential loop of \<open>proofGen\<close>, which hashes a level in place.\<close>

lemma proofGen_pair_loop:
  assumes "ready c" and "2 * p \<le> length buf" and "k0 \<le> p"
  shows "\<exists>buf' e. for_loop (strided (2 * k0) (2 * p) 2) (proofGen_pair c) buf = Some (buf', e) \<and>
      length buf' = length buf \<and>
      (e = None \<longleftrightarrow> (\<forall>k. k0 \<le> k \<and> k < p \<longrightarrow> okp (hashPair c) (buf ! (2 * k)) (buf ! (2 * k + 1)))) \<and>
      (e = None \<longrightarrow>
         (\<forall>k. k0 \<le> k \<and> k < p \<longrightarrow> buf' ! k = hp (hashPair c) (buf ! (2 * k)) (buf ! (2 * k + 1))) \<and>
         (\<forall>k. k < k0 \<or> p \<le> k \<longrightarrow> buf' ! k = buf ! k))"
  using assms(2,3)
proof (induction "p - k0" arbitrary: k0 buf)
  case 0
  then have "strided (2 * k0) (2 * p) 2 = []" by (simp add: strided.simps [of "2 * k0"])
  with 0 show ?case by auto
next
  case (Suc n)
  then have lt: "k0 < p" by simp
  have eq: "strided (2 * k0) (2 * p) 2 = 2 * k0 # strided (2 * Suc k0) (2 * p) 2"
    using lt by (simp add: strided.simps [of "2 * k0"])
  have r1: "2 * k0 < length buf" "2 * k0 + 1 < length buf" "k0 < length buf"
    using lt Suc.prems(1) by auto
  let ?H = "hashPair c"
  let ?a = "buf ! (2 * k0)" let ?b = "buf ! (2 * k0 + 1)"
  show ?case
  proof (cases "okp ?H ?a ?b")
    case False
    then obtain e where "?H ?a ?b = Some (Inl e)" using hashPair_fail [OF assms(1)] by blast
    then have "proofGen_pair c (2 * k0) buf = Some (buf[k0 := []], Some e)"
      using r1 by (simp add: proofGen_pair_def nth_opt_def upd_opt_def)
    with eq False lt show ?thesis by auto
  next
    case True
    let ?d = "hp ?H ?a ?b"
    let ?buf1 = "buf[k0 := ?d]"
    have "?H ?a ?b = Some (Inr ?d)" using hashPair_ok [OF assms(1) True] .
    then have b1: "proofGen_pair c (2 * k0) buf = Some (?buf1, None)"
      using r1 by (simp add: proofGen_pair_def nth_opt_def upd_opt_def)
    have n: "n = p - Suc k0" using Suc.hyps(2) by simp
    have "\<exists>buf' e. for_loop (strided (2 * Suc k0) (2 * p) 2) (proofGen_pair c) ?buf1 = Some (buf', e) \<and>
      length buf' = length ?buf1 \<and>
      (e = None \<longleftrightarrow> (\<forall>k. Suc k0 \<le> k \<and> k < p \<longrightarrow> okp ?H (?buf1 ! (2 * k)) (?buf1 ! (2 * k + 1)))) \<and>
      (e = None \<longrightarrow>
         (\<forall>k. Suc k0 \<le> k \<and> k < p \<longrightarrow> buf' ! k = hp ?H (?buf1 ! (2 * k)) (?buf1 ! (2 * k + 1))) \<and>
         (\<forall>k. k < Suc k0 \<or> p \<le> k \<longrightarrow> buf' ! k = ?buf1 ! k))"
      by (rule Suc.hyps(1) [OF n]) (use Suc.prems lt in auto)
    then obtain buf' e where
      run: "for_loop (strided (2 * Suc k0) (2 * p) 2) (proofGen_pair c) ?buf1 = Some (buf', e)"
      and len: "length buf' = length buf"
      and e: "e = None \<longleftrightarrow> (\<forall>k. Suc k0 \<le> k \<and> k < p \<longrightarrow> okp ?H (?buf1 ! (2 * k)) (?buf1 ! (2 * k + 1)))"
      and v: "e = None \<longrightarrow>
         (\<forall>k. Suc k0 \<le> k \<and> k < p \<longrightarrow> buf' ! k = hp ?H (?buf1 ! (2 * k)) (?buf1 ! (2 * k + 1))) \<and>
         (\<forall>k. k < Suc k0 \<or> p \<le> k \<longrightarrow> buf' ! k = ?buf1 ! k)"
      by auto
    have same: "\<And>k. Suc k0 \<le> k \<Longrightarrow> ?buf1 ! (2 * k) = buf ! (2 * k) \<and> ?buf1 ! (2 * k + 1) = buf ! (2 * k + 1)"
      by simp
    have run': "for_loop (strided (2 * k0) (2 * p) 2) (proofGen_pair c) buf = Some (buf', e)"
      using eq b1 run by simp
    have split: "\<And>P. (\<forall>k. k0 \<le> k \<and> k < p \<longrightarrow> P k) \<longleftrightarrow> P k0 \<and> (\<forall>k. Suc k0 \<le> k \<and> k < p \<longrightarrow> P k)"
      using lt by (metis Suc_leI le_neq_implies_less Suc_leD le_refl)
    have e': "e = None \<longleftrightarrow> (\<forall>k. k0 \<le> k \<and> k < p \<longrightarrow> okp ?H (buf ! (2 * k)) (buf ! (2 * k + 1)))"
      using e same True by (subst split) auto
    have v1: "e = None \<longrightarrow> (\<forall>k. k0 \<le> k \<and> k < p \<longrightarrow> buf' ! k = hp ?H (buf ! (2 * k)) (buf ! (2 * k + 1)))"
    proof (intro impI, subst split, intro conjI allI impI)
      assume en: "e = None"
      from en v have "buf' ! k0 = ?buf1 ! k0" by simp
      then show "buf' ! k0 = hp ?H (buf ! (2 * k0)) (buf ! (2 * k0 + 1))" using r1 by simp
      fix k assume "Suc k0 \<le> k \<and> k < p"
      with en v same show "buf' ! k = hp ?H (buf ! (2 * k)) (buf ! (2 * k + 1))" by auto
    qed
    have v2: "e = None \<longrightarrow> (\<forall>k. k < k0 \<or> p \<le> k \<longrightarrow> buf' ! k = buf ! k)"
    proof (intro impI allI)
      fix k assume en: "e = None" and k: "k < k0 \<or> p \<le> k"
      with lt have k': "k \<noteq> k0" "k < Suc k0 \<or> p \<le> k" by auto
      with en v have "buf' ! k = ?buf1 ! k" by blast
      with k' show "buf' ! k = buf ! k" by simp
    qed
    from run' len e' v1 v2 show ?thesis by blast
  qed
qed

text \<open>Hashing a level from one buffer into another.\<close>

lemma inj_on_half: "\<forall>i\<in>I. even i \<Longrightarrow> inj_on (\<lambda>i::nat. i div 2) I"
proof (rule inj_onI)
  fix x y :: nat
  assume "\<forall>i\<in>I. even i" "x \<in> I" "y \<in> I" "x div 2 = y div 2"
  then have "even x" "even y" "x div 2 = y div 2" by auto
  then show "x = y" by presburger
qed

lemma proofGenHandler_pair_spec:
  assumes "ready c" and "\<forall>i\<in>I. i + 1 < length src \<and> i div 2 < L"
  shows "slot_spec (proofGenHandler_pair c src) I (\<lambda>s. True) (\<lambda>s. s) (\<lambda>i. i div 2)
           (\<lambda>i. hp (hashPair c) (src ! i) (src ! (i + 1)))
           (\<lambda>i. okp (hashPair c) (src ! i) (src ! (i + 1))) L"
  unfolding slot_spec_def
proof (intro ballI allI impI)
  fix i and s :: "bytes list"
  assume i: "i \<in> I" and s: "True \<and> length s = L"
  with assms(2) have r: "i < length src" "i + 1 < length src" "i div 2 < length s" by auto
  let ?a = "src ! i" let ?b = "src ! (i + 1)"
  show "\<exists>s' e. proofGenHandler_pair c src i s = Some (s', e) \<and> True \<and> length s' = L \<and>
      (e = None \<longleftrightarrow> okp (hashPair c) ?a ?b) \<and>
      (okp (hashPair c) ?a ?b \<longrightarrow> s' = s[i div 2 := hp (hashPair c) ?a ?b])"
  proof (cases "okp (hashPair c) ?a ?b")
    case True
    from hashPair_ok [OF assms(1) True] r s show ?thesis
      using True by (simp add: proofGenHandler_pair_def nth_opt_def upd_opt_def)
  next
    case False
    from hashPair_fail [OF assms(1) False] obtain e where "hashPair c ?a ?b = Some (Inl e)" by blast
    with r s False show ?thesis
      by (simp add: proofGenHandler_pair_def nth_opt_def upd_opt_def)
  qed
qed

lemma proofGenHandler_post:
  assumes "ready (Config mt)" and "0 < nr" and "prevLen \<le> length buf" and "even prevLen"
    and "prevLen div 2 \<le> length buff"
  shows "\<exists>buff' e. proofGenHandler mt (proofGen_args buf prevLen nr w) buff = Some (buff', e) \<and> True \<and>
    slot_post buff (arg_indices (proofGen_args buf prevLen nr w)) (\<lambda>i. i div 2)
      (\<lambda>i. hp (hashPair (Config mt)) (buf ! i) (buf ! (i + 1)))
      (\<lambda>i. okp (hashPair (Config mt)) (buf ! i) (buf ! (i + 1))) buff' e"
proof -
  let ?is = "strided (2 * w) prevLen (2 * nr)"
  have ev: "\<forall>i\<in>set ?is. even i \<and> i < prevLen"
    using strided_worker_even [OF assms(2)] by blast
  have rng: "\<forall>i\<in>set ?is. i + 1 < length buf \<and> i div 2 < length buff"
  proof
    fix i assume "i \<in> set ?is"
    with ev have "even i" "i < prevLen" by auto
    with assms(4) have "i + 1 < prevLen" by presburger
    moreover from \<open>i < prevLen\<close> have "i div 2 < prevLen div 2" using assms(4) \<open>even i\<close> by presburger
    ultimately show "i + 1 < length buf \<and> i div 2 < length buff" using assms(3,5) by simp
  qed
  have "\<exists>s' e. for_loop ?is (proofGenHandler_pair (Config mt) buf) buff = Some (s', e) \<and> True \<and>
           slot_post buff (set ?is) (\<lambda>i. i div 2)
             (\<lambda>i. hp (hashPair (Config mt)) (buf ! i) (buf ! (i + 1)))
             (\<lambda>i. okp (hashPair (Config mt)) (buf ! i) (buf ! (i + 1))) s' e"
  proof (rule for_loop_slots [where Inv = "\<lambda>s. True" and get = "\<lambda>s. s"])
    show "slot_spec (proofGenHandler_pair (Config mt) buf) (set ?is) (\<lambda>s. True) (\<lambda>s. s)
        (\<lambda>i. i div 2) (\<lambda>i. hp (hashPair (Config mt)) (buf ! i) (buf ! (i + 1)))
        (\<lambda>i. okp (hashPair (Config mt)) (buf ! i) (buf ! (i + 1))) (length buff)"
      by (rule proofGenHandler_pair_spec [OF assms(1) rng])
    show "inj_on (\<lambda>i. i div 2) (set ?is)" using ev by (intro inj_on_half) blast
    show "\<forall>i\<in>set ?is. i div 2 < length buff" using rng by blast
  qed simp
  then show ?thesis
    using assms(2)
    by (simp add: proofGenHandler_def proofGen_args_def zero_args_def arg_indices_def)
qed

lemma arg_indices_proofGen:
  assumes "0 < nr"
  shows "(\<Union>a\<in>set (map (proofGen_args buf prevLen nr) [0 ..< nr]). arg_indices a) =
    {i. even i \<and> i < prevLen}"
proof -
  have "(\<Union>a\<in>set (map (proofGen_args buf prevLen nr) [0 ..< nr]). arg_indices a) =
      (\<Union>w\<in>{..<nr}. set (strided (2 * w) prevLen (2 * nr)))"
    by (auto simp: arg_indices_def proofGen_args_def zero_args_def)
  then show ?thesis using strided_workers [OF assms] by simp
qed

lemma pool_Map_proofGenHandler:
  assumes "ready (Config mt)" and "0 < nr" and "prevLen \<le> length buf" and "even prevLen"
    and "prevLen div 2 \<le> length buff"
  shows "\<exists>buff' es. pool_Map (proofGenHandler mt) (map (proofGen_args buf prevLen nr) [0 ..< nr]) buff
      = Some (buff', es) \<and>
    slot_post buff {i. even i \<and> i < prevLen} (\<lambda>i. i div 2)
      (\<lambda>i. hp (hashPair (Config mt)) (buf ! i) (buf ! (i + 1)))
      (\<lambda>i. okp (hashPair (Config mt)) (buf ! i) (buf ! (i + 1))) buff' (first_error es)"
proof -
  let ?ws = "map (proofGen_args buf prevLen nr) [0 ..< nr]"
  let ?val = "\<lambda>i. hp (hashPair (Config mt)) (buf ! i) (buf ! (i + 1))"
  let ?ok = "\<lambda>i. okp (hashPair (Config mt)) (buf ! i) (buf ! (i + 1))"
  have U: "(\<Union>a\<in>set ?ws. arg_indices a) = {i. even i \<and> i < prevLen}"
    by (rule arg_indices_proofGen [OF assms(2)])
  have "\<exists>s' es. pool_Map (proofGenHandler mt) ?ws buff = Some (s', es) \<and> True \<and>
           slot_post buff (\<Union>w\<in>set ?ws. arg_indices w) (\<lambda>i. i div 2) ?val ?ok s' (first_error es)"
  proof (rule pool_Map_slots [where Inv = "\<lambda>s. True" and get = "\<lambda>s. s" and L = "length buff"])
    fix w and s :: "bytes list"
    assume "w \<in> set ?ws" and "length s = length buff"
    then obtain k where "w = proofGen_args buf prevLen nr k" by auto
    then show "\<exists>s' e. proofGenHandler mt w s = Some (s', e) \<and> True \<and>
        slot_post s (arg_indices w) (\<lambda>i. i div 2) ?val ?ok s' e"
      using proofGenHandler_post [OF assms(1-4), of s k] assms(5) \<open>length s = length buff\<close> by simp
  next
    show "inj_on (\<lambda>i. i div 2) (\<Union>w\<in>set ?ws. arg_indices w)"
      unfolding U by (rule inj_on_half) simp
    show "\<forall>w\<in>set ?ws. \<forall>i\<in>arg_indices w. i div 2 < length buff"
    proof (intro ballI)
      fix w i assume "w \<in> set ?ws" "i \<in> arg_indices w"
      then have "i \<in> (\<Union>a\<in>set ?ws. arg_indices a)" by blast
      then have "even i" "i < prevLen" unfolding U by auto
      then have "i div 2 < prevLen div 2" using assms(4) by presburger
      then show "i div 2 < length buff" using assms(5) by simp
    qed
  qed simp_all
  then show ?thesis unfolding U by simp
qed

text \<open>From the slots to the next level.\<close>

lemma slot_post_level:
  assumes "even prevLen" and "prevLen \<le> length src" and "prevLen div 2 \<le> length dst"
    and "slot_post dst {i. even i \<and> i < prevLen} (\<lambda>i. i div 2)
      (\<lambda>i. hp H (src ! i) (src ! (i + 1))) (\<lambda>i. okp H (src ! i) (src ! (i + 1))) dst' e"
  shows "length dst' = length dst"
    and "e = None \<longleftrightarrow> level_ok H (take prevLen src)"
    and "e = None \<Longrightarrow> take (prevLen div 2) dst' = next_level H (take prevLen src)"
    and "e = None \<Longrightarrow> drop (prevLen div 2) dst' = drop (prevLen div 2) dst"
proof -
  let ?I = "{i. even i \<and> i < prevLen}"
  from assms(4) show len: "length dst' = length dst" by (simp add: slot_post_def)
  have tk: "length (take prevLen src) = prevLen" using assms(2) by simp
  from assms(1) obtain h where h: "prevLen = 2 * h" by (auto elim: evenE)
  have idx: "\<And>k. k < prevLen div 2 \<Longrightarrow> 2 * k < prevLen \<and> 2 * k + 1 < prevLen"
    unfolding h by simp
  have ok_iff: "(\<forall>i\<in>?I. okp H (src ! i) (src ! (i + 1))) \<longleftrightarrow> level_ok H (take prevLen src)"
  proof
    assume a: "\<forall>i\<in>?I. okp H (src ! i) (src ! (i + 1))"
    show "level_ok H (take prevLen src)"
      unfolding level_ok_def list_all_iff tk
    proof
      fix k assume "k \<in> set [0 ..< prevLen div 2]"
      then have k: "k < prevLen div 2" by simp
      with idx a have "okp H (src ! (2 * k)) (src ! (2 * k + 1))" by simp
      with idx [OF k] show "okp H (take prevLen src ! (2 * k)) (take prevLen src ! (2 * k + 1))" by simp
    qed
  next
    assume a: "level_ok H (take prevLen src)"
    show "\<forall>i\<in>?I. okp H (src ! i) (src ! (i + 1))"
    proof
      fix i assume "i \<in> ?I"
      then have i: "even i" "i < prevLen" by auto
      then obtain k where k: "i = 2 * k" by (auto elim: evenE)
      with i have kk: "k < prevLen div 2" unfolding h by simp
      with a have "okp H (take prevLen src ! (2 * k)) (take prevLen src ! (2 * k + 1))"
        unfolding level_ok_def list_all_iff tk by simp
      with idx [OF kk] k show "okp H (src ! i) (src ! (i + 1))" by simp
    qed
  qed
  with assms(4) show "e = None \<longleftrightarrow> level_ok H (take prevLen src)" by (simp add: slot_post_def)
  {
    assume en: "e = None"
    with assms(4) have all: "\<forall>i\<in>?I. okp H (src ! i) (src ! (i + 1))" by (simp add: slot_post_def)
    with assms(4) have v: "\<forall>i\<in>?I. dst' ! (i div 2) = hp H (src ! i) (src ! (i + 1))"
      and u: "\<forall>k. k \<notin> (\<lambda>i. i div 2) ` ?I \<longrightarrow> dst' ! k = dst ! k"
      by (auto simp: slot_post_def)
    show "take (prevLen div 2) dst' = next_level H (take prevLen src)"
    proof (rule nth_equalityI)
      show "length (take (prevLen div 2) dst') = length (next_level H (take prevLen src))"
        using len assms(3) tk by (simp add: next_level_def)
    next
      fix k assume "k < length (take (prevLen div 2) dst')"
      then have k: "k < prevLen div 2" by simp
      with idx have "2 * k \<in> ?I" by simp
      with v have "dst' ! (2 * k div 2) = hp H (src ! (2 * k)) (src ! (2 * k + 1))" by blast
      then show "take (prevLen div 2) dst' ! k = next_level H (take prevLen src) ! k"
        using k idx [OF k] tk by (simp add: next_level_def)
    qed
    show "drop (prevLen div 2) dst' = drop (prevLen div 2) dst"
    proof (rule nth_equalityI)
      show "length (drop (prevLen div 2) dst') = length (drop (prevLen div 2) dst)" using len by simp
    next
      fix k assume "k < length (drop (prevLen div 2) dst')"
      have "\<And>i. i < prevLen \<Longrightarrow> prevLen div 2 + k \<noteq> i div 2" unfolding h by auto
      then have "prevLen div 2 + k \<notin> (\<lambda>i. i div 2) ` ?I" by auto
      with u have "dst' ! (prevLen div 2 + k) = dst ! (prevLen div 2 + k)" by blast
      then show "drop (prevLen div 2) dst' ! k = drop (prevLen div 2) dst ! k"
        using len \<open>k < length (drop (prevLen div 2) dst')\<close> by simp
    qed
  }
qed

subsection \<open>Padding and the shape of the levels\<close>

lemma length_pad: "length (pad xs) = length xs + length xs mod 2"
  by (auto simp: pad_def elim: oddE)

lemma even_length_pad [simp]: "even (length (pad xs))"
  by (simp add: pad_def)

lemma pad_nth: "q < length xs \<Longrightarrow> pad xs ! q = xs ! q"
  by (simp add: pad_def nth_append)

lemma pad_even: "even (length xs) \<Longrightarrow> pad xs = xs"
  by (simp add: pad_def)

lemma length_next_level [simp]: "length (next_level H xs) = length xs div 2"
  by (simp add: next_level_def)

lemma even_length_level: "even (length (level H leaves k))"
  by (cases k) simp_all

lemma level_position:
  assumes "j < length leaves"
  shows "j div 2 ^ k < length (level H leaves k)"
proof (induction k)
  case 0
  then show ?case using assms by (simp add: length_pad)
next
  case (Suc k)
  obtain h where h: "length (level H leaves k) = 2 * h"
    using even_length_level [of H leaves k] by (auto elim: evenE)
  have "j div 2 ^ Suc k = j div 2 ^ k div 2"
    by (simp only: power_Suc2 div_mult2_eq)
  also have "\<dots> < h" using Suc.IH h by simp
  finally show ?case using h by (simp add: length_pad)
qed

lemma level_sibling:
  assumes "j < length leaves"
  shows "sib_pos (j div 2 ^ k) < length (level H leaves k)"
proof -
  obtain h where h: "length (level H leaves k) = 2 * h"
    using even_length_level [of H leaves k] by (auto elim: evenE)
  from level_position [OF assms, of k H] have "j div 2 ^ k < 2 * h" using h by simp
  then have "sib_pos (j div 2 ^ k) < 2 * h"
    unfolding sib_pos_def by (cases "odd (j div 2 ^ k)") (auto elim!: oddE evenE)
  with h show ?thesis by simp
qed

lemma level_nonempty: "leaves \<noteq> [] \<Longrightarrow> 0 < length (level H leaves k)"
  using level_position [of 0 leaves k H] by simp

lemma length_level_le:
  assumes "length leaves \<le> 2 ^ D" and "k < D"
  shows "length (level H leaves k) \<le> 2 ^ (D - k)"
  using assms(2)
proof (induction k)
  case 0
  then obtain D' where D: "D = Suc D'" by (cases D) auto
  show ?case
  proof (cases "even (length leaves)")
    case True
    then show ?thesis using assms(1) by (simp add: length_pad)
  next
    case False
    then obtain h where h: "length leaves = 2 * h + 1" by (auto elim: oddE)
    with assms(1) D have "2 * h + 1 \<le> 2 * 2 ^ D'" by simp
    then have "2 * h + 2 \<le> 2 * 2 ^ D'" by presburger
    with h D show ?thesis by (simp add: length_pad)
  qed
next
  case (Suc k)
  then have ih: "length (level H leaves k) \<le> 2 ^ (D - k)" by simp
  from Suc.prems obtain e where e: "D - k = Suc (Suc e)" by (cases "D - k"; cases "D - k - 1") auto
  then have e': "D - Suc k = Suc e" by simp
  let ?h = "length (level H leaves k) div 2"
  from ih e have hh: "?h \<le> 2 * 2 ^ e" by simp
  have "?h + ?h mod 2 \<le> 2 * 2 ^ e"
  proof (cases "even ?h")
    case True
    then show ?thesis using hh by simp
  next
    case False
    then obtain g where g: "?h = 2 * g + 1" by (auto elim: oddE)
    with hh have "2 * g + 1 \<le> 2 * 2 ^ e" by simp
    then have "2 * g + 2 \<le> 2 * 2 ^ e" by presburger
    with g show ?thesis by simp
  qed
  then show ?case using e' by (simp add: length_pad)
qed

lemma length_top_level:
  assumes "2 \<le> length leaves"
  shows "length (level H leaves (bits_Len (length leaves - 1) - 1)) = 2"
proof -
  let ?n = "length leaves" let ?D = "bits_Len (?n - 1)"
  have pos: "0 < ?n - 1" using assms by simp
  from bits_Len_bounds [OF pos] have lo: "2 ^ (?D - 1) \<le> ?n - 1" and hi: "?n - 1 < 2 ^ ?D" by auto
  have D0: "0 < ?D" using pos by (subst bits_Len.simps) simp
  have "length (level H leaves (?D - 1)) \<le> 2 ^ (?D - (?D - 1))"
    using hi D0 by (intro length_level_le) auto
  then have le: "length (level H leaves (?D - 1)) \<le> 2" using D0 by simp
  have "(?n - 1) div 2 ^ (?D - 1) < length (level H leaves (?D - 1))"
    using assms by (intro level_position) simp
  moreover have "1 \<le> (?n - 1) div 2 ^ (?D - 1)"
    using lo by (simp add: less_eq_div_iff_mult_less_eq)
  ultimately have "1 < length (level H leaves (?D - 1))" by simp
  with le show ?thesis by simp
qed

lemma level_Suc_nth:
  assumes "q < length (level H leaves k) div 2"
  shows "level H leaves (Suc k) ! q =
    hp H (level H leaves k ! (2 * q)) (level H leaves k ! (2 * q + 1))"
  using assms by (simp add: pad_nth next_level_def)

subsection \<open>\<open>fixOdd\<close>\<close>

lemma fixOdd_eq:
  assumes "n \<le> length buf"
  shows "\<exists>buf'. fixOdd buf n = Some (buf', n + n mod 2) \<and>
    take (n + n mod 2) buf' = pad (take n buf) \<and>
    length buf' = max (length buf) (n + n mod 2) \<and>
    (length buf = n \<longrightarrow> buf' = pad buf)"
proof (cases "even n")
  case True
  then show ?thesis using assms by (simp add: fixOdd_def pad_def)
next
  case False
  then obtain h where h: "n = 2 * h + 1" by (auto elim: oddE)
  have n1: "n - 1 < length buf" using assms h by simp
  have "take n buf = take (n - 1) buf @ [buf ! (n - 1)]"
    using n1 h by (simp add: take_Suc_conv_app_nth)
  then have lst: "last (take n buf) = buf ! (n - 1)" by simp
  have pd: "pad (take n buf) = take n buf @ [buf ! (n - 1)]"
    using False assms lst by (simp add: pad_def)
  have m2: "n + n mod 2 = n + 1" using False by presburger
  show ?thesis
  proof (cases "length buf < n + 1")
    case True
    with assms have len: "length buf = n" by simp
    then have "fixOdd buf n = Some (buf @ [buf ! (n - 1)], n + 1)"
      using False n1 by (simp add: fixOdd_def nth_opt_def Let_def)
    moreover have "pad buf = buf @ [buf ! (n - 1)]" using pd len by simp
    ultimately show ?thesis using len pd m2 by simp
  next
    case False
    with \<open>odd n\<close> n1 have "fixOdd buf n = Some (buf[n := buf ! (n - 1)], n + 1)"
      by (simp add: fixOdd_def nth_opt_def upd_opt_def Let_def)
    moreover have "take (n + 1) (buf[n := buf ! (n - 1)]) = take n buf @ [buf ! (n - 1)]"
      using False by (simp add: take_Suc_conv_app_nth)
    ultimately show ?thesis using False pd m2 by (simp add: max_def)
  qed
qed

subsection \<open>Recording one level into all proofs\<close>

lemma record_level:
  assumes tk: "take p buf = level H leaves i" and p: "p = length (level H leaves i)"
    and cover: "\<forall>j<length leaves. 2 * (j div 2 ^ i div 2) < bufLen"
  shows "record_pairs {x. even x \<and> x < bufLen} buf i (map (proof_of H leaves i) [0 ..< length leaves])
    = map (proof_of H leaves (Suc i)) [0 ..< length leaves]"
proof (rule nth_equalityI)
  show "length (record_pairs {x. even x \<and> x < bufLen} buf i (map (proof_of H leaves i) [0 ..< length leaves]))
    = length (map (proof_of H leaves (Suc i)) [0 ..< length leaves])" by simp
next
  fix j assume "j < length (record_pairs {x. even x \<and> x < bufLen} buf i (map (proof_of H leaves i) [0 ..< length leaves]))"
  then have j: "j < length leaves" by simp
  let ?pos = "j div 2 ^ i"
  have in_S: "2 * (?pos div 2) \<in> {x. even x \<and> x < bufLen}" using cover j by simp
  have sp: "sib_pos ?pos < p" using level_sibling [OF j, of i H] p by simp
  have "buf ! sib_pos ?pos = take p buf ! sib_pos ?pos" using sp by simp
  then have sib: "buf ! sib_pos ?pos = level H leaves i ! sib_pos ?pos" using tk by simp
  have "record_sibling buf i j (proof_of H leaves i j) = proof_of H leaves (Suc i) j"
    using sib by (cases "even ?pos") (simp_all add: record_sibling_def proof_of_def sib_pos_def)
  then show "record_pairs {x. even x \<and> x < bufLen} buf i (map (proof_of H leaves i) [0 ..< length leaves]) ! j
    = map (proof_of H leaves (Suc i)) [0 ..< length leaves] ! j"
    using j in_S by (simp add: record_pairs_def)
qed

lemma cover_level:
  assumes "j < length leaves"
  shows "2 * (j div 2 ^ i div 2) < length (level H leaves i)"
proof -
  obtain h where h: "length (level H leaves i) = 2 * h"
    using even_length_level [of H leaves i] by (auto elim: evenE)
  from level_position [OF assms, of i H] h have "j div 2 ^ i < 2 * h" by simp
  then have "2 * (j div 2 ^ i div 2) < 2 * h" by simp
  with h show ?thesis by simp
qed

lemma even_pairs_in_range:
  assumes "even p" and "p \<le> length buf"
  shows "\<forall>i. even i \<and> i < p \<longrightarrow> i + 1 < length buf"
proof (intro allI impI)
  fix i assume "even i \<and> i < p"
  with assms(1) have "i + 1 < p" by (auto elim!: evenE)
  with assms(2) show "i + 1 < length buf" by simp
qed

text \<open>
  The second half of a step of the streamed construction, after the next level has been
  hashed into the first slots of a buffer: balancing and recording.
\<close>

lemma streamed_record:
  assumes st: "streamed H leaves m0 i m buf prevLen" and i: "0 < i"
    and buf1: "take (prevLen div 2) buf1 = next_level H (level H leaves (i - 1))"
    and len1: "prevLen div 2 \<le> length buf1"
    and upd: "\<And>m buf bufLen. Config m = Config m0 \<Longrightarrow>
       \<forall>i. even i \<and> i < bufLen \<longrightarrow> i + 1 < length buf \<Longrightarrow>
       update m buf bufLen i = Some (m\<lparr>Proofs := record_pairs {x. even x \<and> x < bufLen} buf i (Proofs m)\<rparr>)"
  shows "\<exists>buf2 prevLen2 m2. fixOdd buf1 (prevLen div 2) = Some (buf2, prevLen2) \<and>
     update m buf2 prevLen2 i = Some m2 \<and> streamed H leaves m0 (Suc i) m2 buf2 prevLen2 \<and>
     length buf2 = max (length buf1) prevLen2"
proof -
  let ?p = "prevLen div 2"
  from fixOdd_eq [OF len1] obtain buf2 where
    f: "fixOdd buf1 ?p = Some (buf2, ?p + ?p mod 2)"
    and t: "take (?p + ?p mod 2) buf2 = pad (take ?p buf1)"
    and l: "length buf2 = max (length buf1) (?p + ?p mod 2)"
    by blast
  let ?p2 = "?p + ?p mod 2"
  from i obtain i' where i': "i = Suc i'" by (cases i) auto
  have lv: "take ?p2 buf2 = level H leaves i" using t buf1 i' by simp
  have "length (level H leaves i) = ?p2"
    using st i' by (simp add: streamed_def length_pad)
  then have p2: "?p2 = length (level H leaves i)" by simp
  have ev: "even ?p2" using p2 even_length_level [of H leaves i] by simp
  have le: "?p2 \<le> length buf2" using l by simp
  have m: "m = m0\<lparr>Proofs := map (proof_of H leaves i) [0 ..< length leaves]\<rparr>"
    using st by (simp add: streamed_def)
  have "update m buf2 ?p2 i = Some (m\<lparr>Proofs := record_pairs {x. even x \<and> x < ?p2} buf2 i (Proofs m)\<rparr>)"
    by (rule upd) (use m in simp, rule even_pairs_in_range [OF ev le])
  moreover have "record_pairs {x. even x \<and> x < ?p2} buf2 i (map (proof_of H leaves i) [0 ..< length leaves])
      = map (proof_of H leaves (Suc i)) [0 ..< length leaves]"
    by (rule record_level [OF lv p2]) (use cover_level [of _ leaves i H] p2 in simp)
  ultimately have u: "update m buf2 ?p2 i =
      Some (m0\<lparr>Proofs := map (proof_of H leaves (Suc i)) [0 ..< length leaves]\<rparr>)"
    using m by simp
  have "streamed H leaves m0 (Suc i) (m0\<lparr>Proofs := map (proof_of H leaves (Suc i)) [0 ..< length leaves]\<rparr>) buf2 ?p2"
    using lv p2 le by (simp add: streamed_def)
  with f u l show ?thesis by blast
qed


subsection \<open>The sequential streamed construction\<close>

lemma level_ok_take:
  assumes "even prevLen" and "prevLen \<le> length buf"
  shows "level_ok H (take prevLen buf) \<longleftrightarrow>
    (\<forall>k. 0 \<le> k \<and> k < prevLen div 2 \<longrightarrow> okp H (buf ! (2 * k)) (buf ! (2 * k + 1)))"
proof -
  from assms(1) obtain h where h: "prevLen = 2 * h" by (auto elim: evenE)
  have "\<And>k. k < h \<Longrightarrow> take prevLen buf ! (2 * k) = buf ! (2 * k) \<and> take prevLen buf ! (2 * k + 1) = buf ! (2 * k + 1)"
    unfolding h by simp
  then show ?thesis using assms(2) unfolding level_ok_def list_all_iff h by auto
qed

lemma proofGen_hash_level:
  assumes "ready c" and "even prevLen" and "prevLen \<le> length buf"
  shows "\<exists>buf' e. for_loop (strided 0 prevLen 2) (proofGen_pair c) buf = Some (buf', e) \<and>
    length buf' = length buf \<and> (e = None \<longleftrightarrow> level_ok (hashPair c) (take prevLen buf)) \<and>
    (e = None \<longrightarrow> take (prevLen div 2) buf' = next_level (hashPair c) (take prevLen buf))"
proof -
  from assms(2) obtain p where p: "prevLen = 2 * p" by (auto elim: evenE)
  let ?H = "hashPair c"
  from proofGen_pair_loop [OF assms(1), of p buf 0] assms(3) p obtain buf' e where
    run: "for_loop (strided 0 prevLen 2) (proofGen_pair c) buf = Some (buf', e)"
    and len: "length buf' = length buf"
    and e: "e = None \<longleftrightarrow> (\<forall>k. 0 \<le> k \<and> k < p \<longrightarrow> okp ?H (buf ! (2 * k)) (buf ! (2 * k + 1)))"
    and v: "e = None \<longrightarrow> (\<forall>k. 0 \<le> k \<and> k < p \<longrightarrow> buf' ! k = hp ?H (buf ! (2 * k)) (buf ! (2 * k + 1)))"
    by auto
  have e': "e = None \<longleftrightarrow> level_ok ?H (take prevLen buf)"
    using e level_ok_take [OF assms(2,3), of ?H] p by simp
  have "e = None \<longrightarrow> take (prevLen div 2) buf' = next_level ?H (take prevLen buf)"
  proof
    assume en: "e = None"
    show "take (prevLen div 2) buf' = next_level ?H (take prevLen buf)"
    proof (rule nth_equalityI)
      show "length (take (prevLen div 2) buf') = length (next_level ?H (take prevLen buf))"
        using len assms(3) p by simp
    next
      fix k assume "k < length (take (prevLen div 2) buf')"
      then have k: "k < p" using p by simp
      with en v have "buf' ! k = hp ?H (buf ! (2 * k)) (buf ! (2 * k + 1))" by simp
      then show "take (prevLen div 2) buf' ! k = next_level ?H (take prevLen buf) ! k"
        using k p assms(3) by (simp add: next_level_def)
    qed
  qed
  with run len e' show ?thesis by blast
qed

lemma streamed_Config: "streamed H leaves m0 i m buf prevLen \<Longrightarrow> Config m = Config m0"
  by (simp add: streamed_def)

lemma streamed_even: "streamed H leaves m0 i m buf prevLen \<Longrightarrow> even prevLen"
  by (simp add: streamed_def even_length_level)

lemma proofGen_step_eq:
  assumes rd: "ready (Config m0)" and st: "streamed (hashPair (Config m0)) leaves m0 i m buf prevLen"
    and i: "0 < i"
  shows "\<exists>s' e. proofGen_step i (m, buf, prevLen) = Some (s', e) \<and>
    (e = None \<longleftrightarrow> level_ok (hashPair (Config m0)) (level (hashPair (Config m0)) leaves (i - 1))) \<and>
    (e = None \<longrightarrow> (case s' of (m', buf', prevLen') \<Rightarrow>
        streamed (hashPair (Config m0)) leaves m0 (Suc i) m' buf' prevLen')) \<and>
    (e \<noteq> None \<longrightarrow> True)"
proof -
  let ?H = "hashPair (Config m0)"
  have cfg: "Config m = Config m0" using st by (rule streamed_Config)
  have ev: "even prevLen" using st by (rule streamed_even)
  have le: "prevLen \<le> length buf" and tk: "take prevLen buf = level ?H leaves (i - 1)"
    using st unfolding streamed_def by blast+
  from proofGen_hash_level [OF rd ev le] tk obtain buf1 e where
    run: "for_loop (strided 0 prevLen 2) (proofGen_pair (Config m0)) buf = Some (buf1, e)"
    and len: "length buf1 = length buf"
    and e: "e = None \<longleftrightarrow> level_ok ?H (level ?H leaves (i - 1))"
    and v: "e = None \<longrightarrow> take (prevLen div 2) buf1 = next_level ?H (level ?H leaves (i - 1))"
    by auto
  show ?thesis
  proof (cases e)
    case (Some x)
    with run e cfg show ?thesis by (simp add: proofGen_step_def)
  next
    case None
    have len1: "prevLen div 2 \<le> length buf1" using len le by simp
    from streamed_record [where update = updateProofs, OF st i _ len1 updateProofs_eq] v None
    obtain buf2 prevLen2 m2 where
      "fixOdd buf1 (prevLen div 2) = Some (buf2, prevLen2)"
      "updateProofs m buf2 prevLen2 i = Some m2"
      "streamed ?H leaves m0 (Suc i) m2 buf2 prevLen2"
      by blast
    with run None e cfg show ?thesis by (simp add: proofGen_step_def)
  qed
qed

lemma setRoot_eq:
  assumes rd: "ready (Config m)" and tk: "take 2 buf = xs" and len: "2 \<le> length buf"
  shows "\<exists>m' e. setRoot m buf = Some (m', e) \<and>
    (e = None \<longleftrightarrow> okp (hashPair (Config m)) (xs ! 0) (xs ! 1)) \<and>
    (e = None \<longrightarrow> m' = m\<lparr>Root := hp (hashPair (Config m)) (xs ! 0) (xs ! 1)\<rparr>) \<and>
    (e \<noteq> None \<longrightarrow> m' = m\<lparr>Root := []\<rparr>)"
proof -
  have "take 2 buf ! 0 = buf ! 0" "take 2 buf ! 1 = buf ! 1" by simp_all
  then have x: "xs ! 0 = buf ! 0" "xs ! 1 = buf ! 1" using tk by simp_all
  have n: "nth_opt buf 0 = Some (buf ! 0)" "nth_opt buf 1 = Some (buf ! 1)"
    using len by (auto simp: nth_opt_def)
  show ?thesis
  proof (cases "okp (hashPair (Config m)) (buf ! 0) (buf ! 1)")
    case True
    from hashPair_ok [OF rd True] n x True show ?thesis by (simp add: setRoot_def)
  next
    case False
    from hashPair_fail [OF rd False] obtain e where "hashPair (Config m) (buf ! 0) (buf ! 1) = Some (Inl e)"
      by blast
    with n x False show ?thesis by (simp add: setRoot_def)
  qed
qed

lemma levels_ok_iff:
  "levels_ok H leaves D \<longleftrightarrow> (\<forall>i. 1 \<le> i \<and> i < D \<longrightarrow> level_ok H (level H leaves (i - 1)))"
proof
  assume a: "levels_ok H leaves D"
  show "\<forall>i. 1 \<le> i \<and> i < D \<longrightarrow> level_ok H (level H leaves (i - 1))"
  proof (intro allI impI)
    fix i assume "1 \<le> i \<and> i < D"
    then have "i - 1 \<in> set [0 ..< D - 1]" by auto
    with a show "level_ok H (level H leaves (i - 1))"
      unfolding levels_ok_def list_all_iff by blast
  qed
next
  assume a: "\<forall>i. 1 \<le> i \<and> i < D \<longrightarrow> level_ok H (level H leaves (i - 1))"
  show "levels_ok H leaves D"
    unfolding levels_ok_def list_all_iff
  proof
    fix k assume "k \<in> set [0 ..< D - 1]"
    then have "1 \<le> Suc k \<and> Suc k < D" by auto
    with a have "level_ok H (level H leaves (Suc k - 1))" by blast
    then show "level_ok H (level H leaves k)" by simp
  qed
qed

lemma copy_slice_make: "copy_slice (make_slice (length xs)) xs = xs"
  by (simp add: copy_slice_def make_slice_def)

lemma initProofs_eq:
  "NumLeaves m = length leaves \<Longrightarrow>
    initProofs m = m\<lparr>Proofs := map (proof_of H leaves 0) [0 ..< length leaves]\<rparr>"
proof -
  have "map (proof_of H leaves 0) [0 ..< length leaves] = replicate (length leaves) \<lparr>Siblings = [], Path = 0\<rparr>"
    by (intro nth_equalityI) (simp_all add: proof_of_def)
  then show "NumLeaves m = length leaves \<Longrightarrow> ?thesis" by (simp add: initProofs_def)
qed

text \<open>
  The start of \<open>proofGen\<close>, common to both variants: the balanced leaves and the
  siblings of level 0.
\<close>

lemma streamed_start:
  assumes nl: "NumLeaves m = length (Leaves m)" and n2: "2 \<le> length (Leaves m)"
    and upd: "\<And>m' buf bufLen. Config m' = Config m \<Longrightarrow>
       \<forall>i. even i \<and> i < bufLen \<longrightarrow> i + 1 < length buf \<Longrightarrow>
       update m' buf bufLen 0 = Some (m'\<lparr>Proofs := record_pairs {x. even x \<and> x < bufLen} buf 0 (Proofs m')\<rparr>)"
  shows "\<exists>buf prevLen m1.
     fixOdd (copy_slice (make_slice (NumLeaves (initProofs m))) (Leaves (initProofs m)))
        (NumLeaves (initProofs m)) = Some (buf, prevLen) \<and>
     update (initProofs m) buf (NumLeaves (initProofs m)) 0 = Some m1 \<and>
     streamed H (Leaves m) m (Suc 0) m1 buf prevLen \<and> length buf = prevLen"
proof -
  let ?leaves = "Leaves m" let ?n = "length ?leaves"
  have ip: "initProofs m = m\<lparr>Proofs := map (proof_of H ?leaves 0) [0 ..< ?n]\<rparr>"
    using nl by (rule initProofs_eq)
  have b0: "copy_slice (make_slice (NumLeaves (initProofs m))) (Leaves (initProofs m)) = ?leaves"
    using nl by (simp add: initProofs_def copy_slice_make)
  from fixOdd_eq [of ?n ?leaves] obtain buf where
    f: "fixOdd ?leaves ?n = Some (buf, ?n + ?n mod 2)" and pd: "buf = pad ?leaves"
    and l: "length buf = max ?n (?n + ?n mod 2)"
    by auto
  have lv: "take (?n + ?n mod 2) buf = level H ?leaves 0" using pd by (simp add: length_pad)
  have pl: "?n + ?n mod 2 = length (level H ?leaves 0)" by (simp add: length_pad)
  have rng: "\<forall>i. even i \<and> i < ?n \<longrightarrow> i + 1 < length buf"
  proof (intro allI impI)
    fix i assume i: "even i \<and> i < ?n"
    show "i + 1 < length buf"
    proof (cases "even ?n")
      case True
      with i have "i + 1 < ?n" by (auto elim!: evenE)
      with l show ?thesis by simp
    next
      case False
      then have "?n mod 2 = 1" by presburger
      with i l show ?thesis by simp
    qed
  qed
  have "update (initProofs m) buf ?n 0 =
      Some ((initProofs m)\<lparr>Proofs := record_pairs {x. even x \<and> x < ?n} buf 0 (Proofs (initProofs m))\<rparr>)"
    by (rule upd [OF _ rng]) (simp add: initProofs_def)
  moreover have "record_pairs {x. even x \<and> x < ?n} buf 0 (map (proof_of H ?leaves 0) [0 ..< ?n])
      = map (proof_of H ?leaves (Suc 0)) [0 ..< ?n]"
  proof (rule record_level [OF lv pl], intro allI impI)
    fix j assume "j < ?n"
    moreover have "2 * (j div 2) \<le> j" by simp
    ultimately show "2 * (j div 2 ^ 0 div 2) < ?n" by simp
  qed
  ultimately have u: "update (initProofs m) buf (NumLeaves (initProofs m)) 0 =
      Some (m\<lparr>Proofs := map (proof_of H ?leaves (Suc 0)) [0 ..< ?n]\<rparr>)"
    using ip nl by simp
  have "streamed H ?leaves m (Suc 0) (m\<lparr>Proofs := map (proof_of H ?leaves (Suc 0)) [0 ..< ?n]\<rparr>) buf (?n + ?n mod 2)"
    using lv pl l by (simp add: streamed_def)
  moreover have "length buf = ?n + ?n mod 2" using l by simp
  ultimately show ?thesis using f u b0 nl by (auto simp: initProofs_def)
qed


lemma streamed_end:
  assumes st: "streamed (hashPair (Config m0)) leaves m0 (bits_Len (length leaves - 1)) m buf prevLen"
    and rd: "ready (Config m0)" and n2: "2 \<le> length leaves"
  shows "\<exists>m' e. setRoot m buf = Some (m', e) \<and>
    (e = None \<longleftrightarrow> root_ok (hashPair (Config m0)) leaves (bits_Len (length leaves - 1))) \<and>
    (e = None \<longrightarrow> m' = m0\<lparr>Proofs := map (proof_of (hashPair (Config m0)) leaves (bits_Len (length leaves - 1)))
                                    [0 ..< length leaves],
                          Root := root_of (hashPair (Config m0)) leaves (bits_Len (length leaves - 1))\<rparr>)"
proof -
  let ?H = "hashPair (Config m0)" let ?D = "bits_Len (length leaves - 1)"
  have cfg: "Config m = Config m0" using st by (rule streamed_Config)
  have pl: "prevLen = 2" using st length_top_level [OF n2, of ?H] unfolding streamed_def by simp
  have tk: "take 2 buf = level ?H leaves (?D - 1)" and le: "2 \<le> length buf"
    using st pl unfolding streamed_def by auto
  have m: "m = m0\<lparr>Proofs := map (proof_of ?H leaves ?D) [0 ..< length leaves]\<rparr>"
    using st unfolding streamed_def by blast
  have rdm: "ready (Config m)" using rd cfg by simp
  from setRoot_eq [OF rdm tk le] cfg m show ?thesis
    by (auto simp: root_ok_def root_of_def)
qed

lemma proofGen_seq:
  assumes rd: "ready (Config m)" and seq: "\<not> RunInParallel (Config m)"
    and nl: "NumLeaves m = length (Leaves m)" and n2: "2 \<le> length (Leaves m)"
    and D: "Depth m = bits_Len (length (Leaves m) - 1)"
  shows "\<exists>m' e. proofGen m = Some (m', e) \<and>
    (e = None \<longleftrightarrow> levels_ok (hashPair (Config m)) (Leaves m) (Depth m) \<and>
                     root_ok (hashPair (Config m)) (Leaves m) (Depth m)) \<and>
    (e = None \<longrightarrow> m' = m\<lparr>Proofs := map (proof_of (hashPair (Config m)) (Leaves m) (Depth m))
                                    [0 ..< length (Leaves m)],
                          Root := root_of (hashPair (Config m)) (Leaves m) (Depth m)\<rparr>)"
proof -
  let ?H = "hashPair (Config m)" let ?leaves = "Leaves m" let ?D = "Depth m"
  from streamed_start [where update = updateProofs and H = ?H, OF nl n2 updateProofs_eq]
  obtain buf prevLen m1 where
    f: "fixOdd (copy_slice (make_slice (NumLeaves (initProofs m))) (Leaves (initProofs m)))
        (NumLeaves (initProofs m)) = Some (buf, prevLen)"
    and u: "updateProofs (initProofs m) buf (NumLeaves (initProofs m)) 0 = Some m1"
    and st: "streamed ?H ?leaves m (Suc 0) m1 buf prevLen"
    by blast
  have D1: "Suc 0 \<le> ?D"
    using n2 D by (subst (asm) bits_Len.simps) (auto split: if_splits)
  have d1: "Depth m1 = ?D" using st by (simp add: streamed_def)
  let ?I = "\<lambda>i s. case s of (m', buf', prevLen') \<Rightarrow> streamed ?H ?leaves m i m' buf' prevLen'"
  have "\<exists>s' e. for_loop [Suc 0 ..< ?D] proofGen_step (m1, buf, prevLen) = Some (s', e) \<and>
           (e = None \<longleftrightarrow> (\<forall>i. Suc 0 \<le> i \<and> i < ?D \<longrightarrow> level_ok ?H (level ?H ?leaves (i - 1)))) \<and>
           (e = None \<longrightarrow> ?I ?D s') \<and> (e \<noteq> None \<longrightarrow> True)"
  proof (rule for_loop_upt [where I = ?I and F = "\<lambda>s. True", OF _ D1])
    show "?I (Suc 0) (m1, buf, prevLen)" using st by simp
  next
    fix i s assume i: "Suc 0 \<le> i" "i < ?D" and inv: "?I i s"
    obtain m' buf' prevLen' where s: "s = (m', buf', prevLen')" by (cases s)
    with inv have "streamed ?H ?leaves m i m' buf' prevLen'" by simp
    from proofGen_step_eq [OF rd this] i s
    show "\<exists>s' e. proofGen_step i s = Some (s', e) \<and>
        (e = None \<longleftrightarrow> level_ok ?H (level ?H ?leaves (i - 1))) \<and>
        (e = None \<longrightarrow> ?I (Suc i) s') \<and> (e \<noteq> None \<longrightarrow> True)"
      by auto
  qed
  then obtain s' e where
    run: "for_loop [Suc 0 ..< ?D] proofGen_step (m1, buf, prevLen) = Some (s', e)"
    and e0: "e = None \<longleftrightarrow> (\<forall>i. Suc 0 \<le> i \<and> i < ?D \<longrightarrow> level_ok ?H (level ?H ?leaves (i - 1)))"
    and inv: "e = None \<longrightarrow> ?I ?D s'"
    by blast
  have e: "e = None \<longleftrightarrow> levels_ok ?H ?leaves ?D"
    using e0 by (simp add: levels_ok_iff)
  obtain m2 buf2 prevLen2 where s': "s' = (m2, buf2, prevLen2)" by (cases s')
  have unfold: "proofGen m = (case e of Some x \<Rightarrow> Some (m2, Some x) | None \<Rightarrow> setRoot m2 buf2)"
    using f u run s' seq d1 by (simp add: proofGen_def Let_def initProofs_def split: option.splits)
  show ?thesis
  proof (cases e)
    case (Some x)
    with unfold e show ?thesis by simp
  next
    case None
    with inv s' have "streamed ?H ?leaves m ?D m2 buf2 prevLen2" by simp
    from streamed_end [OF this [unfolded D] rd n2] unfold None e D show ?thesis by auto
  qed
qed


subsection \<open>The parallel streamed construction\<close>

lemma proofGenParallel_step_eq:
  assumes rd: "ready (Config m0)" and nr0: "0 < NumRoutines (Config m0)"
    and st: "streamed (hashPair (Config m0)) leaves m0 i m buf prevLen"
    and bf: "prevLen div 2 \<le> length buff" and nr: "0 < numRoutines"
    and i: "0 < i" and ne: "leaves \<noteq> []"
  shows "\<exists>s' e. proofGenParallel_step i (m, buf, buff, prevLen, numRoutines) = Some (s', e) \<and>
    (e = None \<longleftrightarrow> level_ok (hashPair (Config m0)) (level (hashPair (Config m0)) leaves (i - 1))) \<and>
    (e = None \<longrightarrow> (case s' of (m', buf', buff', prevLen', numRoutines') \<Rightarrow>
        streamed (hashPair (Config m0)) leaves m0 (Suc i) m' buf' prevLen' \<and>
        prevLen' div 2 \<le> length buff' \<and> 0 < numRoutines')) \<and>
    (e \<noteq> None \<longrightarrow> True)"
proof -
  let ?H = "hashPair (Config m0)"
  have cfg: "Config m = Config m0" using st by (rule streamed_Config)
  have ev: "even prevLen" using st by (rule streamed_even)
  have le: "prevLen \<le> length buf" and tk: "take prevLen buf = level ?H leaves (i - 1)"
    and pl: "prevLen = length (level ?H leaves (i - 1))"
    using st unfolding streamed_def by blast+
  have pos: "0 < prevLen" using pl level_nonempty [OF ne] by simp
  define nR where "nR = (if numRoutines > int prevLen then int prevLen else numRoutines)"
  have nR: "0 < nR" using nr pos by (simp add: nR_def)
  let ?nr = "nat nR"
  have nr': "0 < ?nr" using nR by simp
  have rdm: "ready (Config m)" using rd cfg by simp
  from pool_Map_proofGenHandler [OF rdm nr' le ev bf] obtain buff' es where
    pm: "pool_Map (proofGenHandler m) (map (proofGen_args buf prevLen ?nr) [0 ..< ?nr]) buff = Some (buff', es)"
    and post: "slot_post buff {i. even i \<and> i < prevLen} (\<lambda>i. i div 2)
      (\<lambda>i. hp ?H (buf ! i) (buf ! (i + 1))) (\<lambda>i. okp ?H (buf ! i) (buf ! (i + 1))) buff' (first_error es)"
    using cfg by auto
  note lvl = slot_post_level [OF ev le bf post]
  have e: "first_error es = None \<longleftrightarrow> level_ok ?H (level ?H leaves (i - 1))"
    using lvl(2) tk by simp
  have unfold: "proofGenParallel_step i (m, buf, buff, prevLen, numRoutines) =
    (case first_error es of
       Some e \<Rightarrow> Some ((m, buf, buff', prevLen, nR), Some e)
     | None \<Rightarrow> do {
         (buf', prevLen) \<leftarrow> fixOdd buff' (prevLen div 2);
         m \<leftarrow> updateProofsParallel m buf' prevLen i;
         Some ((m, buf', buf, prevLen, nR), None)
       })"
    unfolding proofGenParallel_step_def Let_def prod.case nR_def [symmetric]
    using pm nR unfolding proofGen_args_def by simp
  show ?thesis
  proof (cases "first_error es")
    case (Some x)
    with unfold e show ?thesis by simp
  next
    case None
    have len1: "prevLen div 2 \<le> length buff'" using lvl(1) bf by simp
    have b1: "take (prevLen div 2) buff' = next_level ?H (level ?H leaves (i - 1))"
      using lvl(3) [OF None] tk by simp
    have upd: "\<And>m buf bufLen. Config m = Config m0 \<Longrightarrow>
       \<forall>i. even i \<and> i < bufLen \<longrightarrow> i + 1 < length buf \<Longrightarrow>
       updateProofsParallel m buf bufLen i =
         Some (m\<lparr>Proofs := record_pairs {x. even x \<and> x < bufLen} buf i (Proofs m)\<rparr>)"
      using nr0 by (intro updateProofsParallel_eq) simp_all
    from streamed_record [where update = updateProofsParallel, OF st i b1 len1 upd]
    obtain buf2 prevLen2 m2 where
      f: "fixOdd buff' (prevLen div 2) = Some (buf2, prevLen2)"
      and u: "updateProofsParallel m buf2 prevLen2 i = Some m2"
      and st2: "streamed ?H leaves m0 (Suc i) m2 buf2 prevLen2"
      by blast
    from fixOdd_eq [OF len1] f have p2: "prevLen2 = prevLen div 2 + prevLen div 2 mod 2" by auto
    have "prevLen2 div 2 \<le> prevLen" using p2 by presburger
    then have bf2: "prevLen2 div 2 \<le> length buf" using le by simp
    from unfold None f u st2 bf2 nR e show ?thesis by simp
  qed
qed

lemma proofGenParallel_eq:
  assumes rd: "ready (Config m0)" and nr0: "0 < NumRoutines (Config m0)"
    and st: "streamed (hashPair (Config m0)) leaves m0 (Suc 0) m1 buf prevLen"
    and n2: "2 \<le> length leaves" and D: "Depth m0 = bits_Len (length leaves - 1)"
    and bf: "prevLen div 2 \<le> length buff"
  shows "\<exists>s' e. for_loop [Suc 0 ..< Depth m0] proofGenParallel_step
             (m1, buf, buff, prevLen, NumRoutines (Config m0)) = Some (s', e) \<and>
    (e = None \<longleftrightarrow> levels_ok (hashPair (Config m0)) leaves (Depth m0)) \<and>
    (e = None \<longrightarrow> (case s' of (m', buf', buff', prevLen', numRoutines') \<Rightarrow>
        streamed (hashPair (Config m0)) leaves m0 (Depth m0) m' buf' prevLen'))"
proof -
  let ?H = "hashPair (Config m0)" let ?D = "Depth m0"
  have ne: "leaves \<noteq> []" using n2 by auto
  have D1: "Suc 0 \<le> ?D"
    using n2 D by (subst (asm) bits_Len.simps) (auto split: if_splits)
  let ?I = "\<lambda>i s. case s of (m', buf', buff', prevLen', numRoutines') \<Rightarrow>
      streamed ?H leaves m0 i m' buf' prevLen' \<and> prevLen' div 2 \<le> length buff' \<and> 0 < numRoutines'"
  have "\<exists>s' e. for_loop [Suc 0 ..< ?D] proofGenParallel_step
             (m1, buf, buff, prevLen, NumRoutines (Config m0)) = Some (s', e) \<and>
           (e = None \<longleftrightarrow> (\<forall>i. Suc 0 \<le> i \<and> i < ?D \<longrightarrow> level_ok ?H (level ?H leaves (i - 1)))) \<and>
           (e = None \<longrightarrow> ?I ?D s') \<and> (e \<noteq> None \<longrightarrow> True)"
  proof (rule for_loop_upt [where I = ?I and F = "\<lambda>s. True", OF _ D1])
    show "?I (Suc 0) (m1, buf, buff, prevLen, NumRoutines (Config m0))" using st bf nr0 by simp
  next
    fix i and s :: "MerkleTree \<times> bytes list \<times> bytes list \<times> nat \<times> int"
    assume i: "Suc 0 \<le> i" "i < ?D" and inv: "?I i s"
    obtain m' buf' buff' prevLen' numRoutines' where s: "s = (m', buf', buff', prevLen', numRoutines')"
      by (cases s)
    with inv have a: "streamed ?H leaves m0 i m' buf' prevLen'" "prevLen' div 2 \<le> length buff'"
      "0 < numRoutines'" by simp_all
    have i0: "0 < i" using i by simp
    have "\<exists>s' e. proofGenParallel_step i (m', buf', buff', prevLen', numRoutines') = Some (s', e) \<and>
        (e = None \<longleftrightarrow> level_ok ?H (level ?H leaves (i - 1))) \<and>
        (e = None \<longrightarrow> (case s' of (m', buf', buff', prevLen', numRoutines') \<Rightarrow>
            streamed ?H leaves m0 (Suc i) m' buf' prevLen' \<and>
            prevLen' div 2 \<le> length buff' \<and> 0 < numRoutines')) \<and>
        (e \<noteq> None \<longrightarrow> True)"
      by (rule proofGenParallel_step_eq) (fact rd nr0 a i0 ne)+
    with s show "\<exists>s' e. proofGenParallel_step i s = Some (s', e) \<and>
        (e = None \<longleftrightarrow> level_ok ?H (level ?H leaves (i - 1))) \<and>
        (e = None \<longrightarrow> ?I (Suc i) s') \<and> (e \<noteq> None \<longrightarrow> True)"
      by auto
  qed
  then obtain s' e where
    run: "for_loop [Suc 0 ..< ?D] proofGenParallel_step
             (m1, buf, buff, prevLen, NumRoutines (Config m0)) = Some (s', e)"
    and e0: "e = None \<longleftrightarrow> (\<forall>i. Suc 0 \<le> i \<and> i < ?D \<longrightarrow> level_ok ?H (level ?H leaves (i - 1)))"
    and inv: "e = None \<longrightarrow> ?I ?D s'"
    by blast
  have e: "e = None \<longleftrightarrow> levels_ok ?H leaves ?D"
    using e0 by (simp add: levels_ok_iff)
  from run e inv show ?thesis by (auto split: prod.splits)
qed

lemma proofGen_par:
  assumes rd: "ready (Config m)" and par: "RunInParallel (Config m)"
    and nr0: "0 < NumRoutines (Config m)"
    and nl: "NumLeaves m = length (Leaves m)" and n2: "2 \<le> length (Leaves m)"
    and D: "Depth m = bits_Len (length (Leaves m) - 1)"
  shows "\<exists>m' e. proofGen m = Some (m', e) \<and>
    (e = None \<longleftrightarrow> levels_ok (hashPair (Config m)) (Leaves m) (Depth m) \<and>
                     root_ok (hashPair (Config m)) (Leaves m) (Depth m)) \<and>
    (e = None \<longrightarrow> m' = m\<lparr>Proofs := map (proof_of (hashPair (Config m)) (Leaves m) (Depth m))
                                    [0 ..< length (Leaves m)],
                          Root := root_of (hashPair (Config m)) (Leaves m) (Depth m)\<rparr>)"
proof -
  let ?H = "hashPair (Config m)" let ?leaves = "Leaves m" let ?D = "Depth m"
  have upd: "\<And>m' buf bufLen. Config m' = Config m \<Longrightarrow>
       \<forall>i. even i \<and> i < bufLen \<longrightarrow> i + 1 < length buf \<Longrightarrow>
       updateProofsParallel m' buf bufLen 0 =
         Some (m'\<lparr>Proofs := record_pairs {x. even x \<and> x < bufLen} buf 0 (Proofs m')\<rparr>)"
    using nr0 by (intro updateProofsParallel_eq) simp_all
  from streamed_start [where update = updateProofsParallel and H = ?H, OF nl n2 upd]
  obtain buf prevLen m1 where
    f: "fixOdd (copy_slice (make_slice (NumLeaves (initProofs m))) (Leaves (initProofs m)))
        (NumLeaves (initProofs m)) = Some (buf, prevLen)"
    and u: "updateProofsParallel (initProofs m) buf (NumLeaves (initProofs m)) 0 = Some m1"
    and st: "streamed ?H ?leaves m (Suc 0) m1 buf prevLen"
    by blast
  have d1: "Depth m1 = ?D" "Config m1 = Config m" using st by (simp_all add: streamed_def)
  have bf: "prevLen div 2 \<le> length (make_slice (prevLen div 2))" by (simp add: make_slice_def)
  from proofGenParallel_eq [OF rd nr0 st n2 D bf] obtain s' e where
    run: "for_loop [Suc 0 ..< ?D] proofGenParallel_step
             (m1, buf, make_slice (prevLen div 2), prevLen, NumRoutines (Config m)) = Some (s', e)"
    and e: "e = None \<longleftrightarrow> levels_ok ?H ?leaves ?D"
    and inv: "e = None \<longrightarrow> (case s' of (m', buf', buff', prevLen', numRoutines') \<Rightarrow>
        streamed ?H ?leaves m ?D m' buf' prevLen')"
    by blast
  obtain m2 buf2 buff2 prevLen2 nr2 where s': "s' = (m2, buf2, buff2, prevLen2, nr2)" by (cases s')
  have unfold: "proofGen m = (case e of Some x \<Rightarrow> Some (m2, Some x) | None \<Rightarrow> setRoot m2 buf2)"
    using f u run s' par d1
    by (simp add: proofGen_def proofGenParallel_def Let_def initProofs_def split: option.splits)
  show ?thesis
  proof (cases e)
    case (Some x)
    with unfold e show ?thesis by simp
  next
    case None
    with inv s' have "streamed ?H ?leaves m ?D m2 buf2 prevLen2" by simp
    from streamed_end [OF this [unfolded D] rd n2] unfold None e D show ?thesis by auto
  qed
qed

subsection \<open>Hashing one retained level into the next\<close>

lemma get_node_with_level:
  assumes "Suc d < length (nodes m)"
  shows "get_node (with_level m (Suc d) dst) d i = nth_opt (nodes m ! d) i"
  using assms by (simp add: get_node_def with_level_def nth_opt_def)

lemma set_node_with_level:
  assumes "Suc d < length (nodes m)"
  shows "set_node (with_level m (Suc d) dst) (Suc d) k v =
    (if k < length dst then Some (with_level m (Suc d) (dst[k := v])) else None)"
  using assms by (simp add: set_node_def with_level_def nth_opt_def upd_opt_def)

lemma with_level_props [simp]:
  "Config (with_level m d lv) = Config m"
  "d < length (nodes m) \<Longrightarrow> nodes (with_level m d lv) ! d = lv"
  "length (nodes (with_level m d lv)) = length (nodes m)"
  by (simp_all add: with_level_def)

lemma tree_pair_spec:
  assumes rd: "ready (Config m)" and d: "Suc d < length (nodes m)"
    and rng: "\<forall>i\<in>I. i + 1 < length (nodes m ! d) \<and> i div 2 < L"
  shows "slot_spec (treeBuild_pair d) I (\<lambda>s. \<exists>dst. s = with_level m (Suc d) dst)
           (\<lambda>s. nodes s ! Suc d) (\<lambda>i. i div 2)
           (\<lambda>i. hp (hashPair (Config m)) (nodes m ! d ! i) (nodes m ! d ! (i + 1)))
           (\<lambda>i. okp (hashPair (Config m)) (nodes m ! d ! i) (nodes m ! d ! (i + 1))) L"
    and "slot_spec (treeBuildHandler_pair d) I (\<lambda>s. \<exists>dst. s = with_level m (Suc d) dst)
           (\<lambda>s. nodes s ! Suc d) (\<lambda>i. i div 2)
           (\<lambda>i. hp (hashPair (Config m)) (nodes m ! d ! i) (nodes m ! d ! (i + 1)))
           (\<lambda>i. okp (hashPair (Config m)) (nodes m ! d ! i) (nodes m ! d ! (i + 1))) L"
proof -
  let ?src = "nodes m ! d"
  let ?H = "hashPair (Config m)"
  {
    fix i s assume i: "i \<in> I" and s: "(\<exists>dst. s = with_level m (Suc d) dst) \<and> length (nodes s ! Suc d) = L"
    then obtain dst where sd: "s = with_level m (Suc d) dst" by blast
    with s d have ld: "length dst = L" by simp
    from rng i ld have r: "i < length ?src" "i + 1 < length ?src" "i div 2 < length dst" by auto
    have g: "get_node s d i = Some (?src ! i)" "get_node s d (i + 1) = Some (?src ! (i + 1))"
      using r sd by (simp_all add: get_node_with_level [OF d] nth_opt_def)
    have st: "\<And>v. set_node s (Suc d) (i div 2) v = Some (with_level m (Suc d) (dst[i div 2 := v]))"
      using r sd by (simp add: set_node_with_level [OF d])
    have cfg: "Config s = Config m" using sd by simp
    have nd: "\<And>x. nodes (with_level m (Suc d) x) ! Suc d = x" using d by simp
    have "(\<exists>s' e. treeBuild_pair d i s = Some (s', e) \<and> (\<exists>dst. s' = with_level m (Suc d) dst) \<and>
             length (nodes s' ! Suc d) = L \<and> (e = None \<longleftrightarrow> okp ?H (?src ! i) (?src ! (i + 1))) \<and>
             (okp ?H (?src ! i) (?src ! (i + 1)) \<longrightarrow>
                nodes s' ! Suc d = (nodes s ! Suc d)[i div 2 := hp ?H (?src ! i) (?src ! (i + 1))])) \<and>
          (\<exists>s' e. treeBuildHandler_pair d i s = Some (s', e) \<and> (\<exists>dst. s' = with_level m (Suc d) dst) \<and>
             length (nodes s' ! Suc d) = L \<and> (e = None \<longleftrightarrow> okp ?H (?src ! i) (?src ! (i + 1))) \<and>
             (okp ?H (?src ! i) (?src ! (i + 1)) \<longrightarrow>
                nodes s' ! Suc d = (nodes s ! Suc d)[i div 2 := hp ?H (?src ! i) (?src ! (i + 1))]))"
    proof (cases "okp ?H (?src ! i) (?src ! (i + 1))")
      case True
      from hashPair_ok [OF rd True] have h: "hashPair (Config s) (?src ! i) (?src ! (i + 1)) =
          Some (Inr (hp ?H (?src ! i) (?src ! (i + 1))))" using cfg by simp
      have 1: "treeBuild_pair d i s = Some (with_level m (Suc d) (dst[i div 2 := hp ?H (?src ! i) (?src ! (i + 1))]), None)"
        using g h st by (simp add: treeBuild_pair_def)
      have 2: "treeBuildHandler_pair d i s = Some (with_level m (Suc d) (dst[i div 2 := hp ?H (?src ! i) (?src ! (i + 1))]), None)"
        using g h st by (simp add: treeBuildHandler_pair_def)
      show ?thesis unfolding 1 2 using True nd ld sd by auto
    next
      case False
      from hashPair_fail [OF rd False] obtain e where h: "hashPair (Config s) (?src ! i) (?src ! (i + 1)) =
          Some (Inl e)" using cfg by auto
      have 1: "treeBuild_pair d i s = Some (with_level m (Suc d) (dst[i div 2 := []]), Some e)"
        using g h st by (simp add: treeBuild_pair_def)
      have 2: "treeBuildHandler_pair d i s = Some (s, Some e)"
        using g h st by (simp add: treeBuildHandler_pair_def)
      show ?thesis unfolding 1 2 using False nd ld sd by auto
    qed
  }
  then show "slot_spec (treeBuild_pair d) I (\<lambda>s. \<exists>dst. s = with_level m (Suc d) dst)
           (\<lambda>s. nodes s ! Suc d) (\<lambda>i. i div 2)
           (\<lambda>i. hp ?H (?src ! i) (?src ! (i + 1))) (\<lambda>i. okp ?H (?src ! i) (?src ! (i + 1))) L"
    and "slot_spec (treeBuildHandler_pair d) I (\<lambda>s. \<exists>dst. s = with_level m (Suc d) dst)
           (\<lambda>s. nodes s ! Suc d) (\<lambda>i. i div 2)
           (\<lambda>i. hp ?H (?src ! i) (?src ! (i + 1))) (\<lambda>i. okp ?H (?src ! i) (?src ! (i + 1))) L"
    unfolding slot_spec_def by blast+
qed


lemma tree_level_post:
  assumes d: "Suc d < length (nodes m)" and ev: "even (length (nodes m ! d))"
    and inv: "\<exists>dst. s' = with_level m (Suc d) dst"
    and post: "slot_post (make_slice (length (nodes m ! d) div 2))
        {i. even i \<and> i < length (nodes m ! d)} (\<lambda>i. i div 2)
        (\<lambda>i. hp H (nodes m ! d ! i) (nodes m ! d ! (i + 1)))
        (\<lambda>i. okp H (nodes m ! d ! i) (nodes m ! d ! (i + 1))) (nodes s' ! Suc d) e"
  shows "e = None \<longleftrightarrow> level_ok H (nodes m ! d)"
    and "e = None \<Longrightarrow> s' = with_level m (Suc d) (next_level H (nodes m ! d))"
proof -
  let ?src = "nodes m ! d" let ?p = "length ?src div 2"
  have le: "length ?src \<le> length ?src" by simp
  have bf: "?p \<le> length (make_slice ?p)" by (simp add: make_slice_def)
  note lvl = slot_post_level [OF ev le bf post]
  show "e = None \<longleftrightarrow> level_ok H ?src" using lvl(2) by simp
  assume en: "e = None"
  from inv obtain dst where s': "s' = with_level m (Suc d) dst" by blast
  with d have dst: "nodes s' ! Suc d = dst" by simp
  have "length dst = ?p" using lvl(1) dst by (simp add: make_slice_def)
  moreover have "take ?p dst = next_level H ?src" using lvl(3) [OF en] dst by simp
  ultimately have "dst = next_level H ?src" by simp
  with s' show "s' = with_level m (Suc d) (next_level H ?src)" by simp
qed

lemma evens_in_range:
  fixes n i :: nat
  assumes "even n" and "i \<in> {i. even i \<and> i < n}"
  shows "i + 1 < n \<and> i div 2 < n div 2"
proof -
  from assms obtain h k where "n = 2 * h" "i = 2 * k" "i < n" by (auto elim!: evenE)
  then show ?thesis by simp
qed

lemma treeBuild_hash_level:
  assumes rd: "ready (Config m)" and d: "Suc d < length (nodes m)"
    and ev: "even (length (nodes m ! d))"
  shows "\<exists>s' e. for_loop (strided 0 (length (nodes m ! d)) 2) (treeBuild_pair d)
            (with_level m (Suc d) (make_slice (length (nodes m ! d) div 2))) = Some (s', e) \<and>
    (e = None \<longleftrightarrow> level_ok (hashPair (Config m)) (nodes m ! d)) \<and>
    (e = None \<longrightarrow> s' = with_level m (Suc d) (next_level (hashPair (Config m)) (nodes m ! d)))"
proof -
  let ?src = "nodes m ! d" let ?p = "length ?src div 2" let ?H = "hashPair (Config m)"
  let ?s = "with_level m (Suc d) (make_slice ?p)"
  let ?Inv = "\<lambda>s. \<exists>dst. s = with_level m (Suc d) dst"
  let ?is = "strided 0 (length ?src) 2"
  have gs: "nodes ?s ! Suc d = make_slice ?p" using d by simp
  have L: "length (nodes ?s ! Suc d) = ?p" using gs by (simp add: make_slice_def)
  have rng: "\<forall>i\<in>set ?is. i + 1 < length ?src \<and> i div 2 < ?p"
    using evens_in_range [OF ev] by (simp add: strided_evens)
  have "\<exists>s' e. for_loop ?is (treeBuild_pair d) ?s = Some (s', e) \<and> ?Inv s' \<and>
           slot_post (nodes ?s ! Suc d) (set ?is) (\<lambda>i. i div 2)
             (\<lambda>i. hp ?H (?src ! i) (?src ! (i + 1))) (\<lambda>i. okp ?H (?src ! i) (?src ! (i + 1)))
             (nodes s' ! Suc d) e"
  proof (rule for_loop_slots [where Inv = ?Inv and get = "\<lambda>s. nodes s ! Suc d"])
    show "slot_spec (treeBuild_pair d) (set ?is) ?Inv (\<lambda>s. nodes s ! Suc d) (\<lambda>i. i div 2)
        (\<lambda>i. hp ?H (?src ! i) (?src ! (i + 1))) (\<lambda>i. okp ?H (?src ! i) (?src ! (i + 1)))
        (length (nodes ?s ! Suc d))"
      unfolding L by (rule tree_pair_spec(1) [OF rd d rng])
    show "?Inv ?s" by blast
    show "inj_on (\<lambda>i. i div 2) (set ?is)" by (rule inj_on_half) (simp add: strided_evens)
    show "\<forall>i\<in>set ?is. i div 2 < length (nodes ?s ! Suc d)" unfolding L using rng by blast
  qed
  then obtain s' e where run: "for_loop ?is (treeBuild_pair d) ?s = Some (s', e)"
    and inv: "?Inv s'"
    and post: "slot_post (make_slice ?p) {i. even i \<and> i < length ?src} (\<lambda>i. i div 2)
             (\<lambda>i. hp ?H (?src ! i) (?src ! (i + 1))) (\<lambda>i. okp ?H (?src ! i) (?src ! (i + 1)))
             (nodes s' ! Suc d) e"
    unfolding gs strided_evens by blast
  from run tree_level_post [OF d ev inv post] show ?thesis by blast
qed

lemma strided_workers_clamped:
  assumes "0 < NR"
  shows "(\<Union>w\<in>{..<min NR n}. set (strided (2 * w) n (2 * NR))) = {i. even i \<and> i < n}"
proof -
  have e: "\<And>w x. x \<in> set (strided (2 * w) n (2 * NR)) \<Longrightarrow> w < n"
    using assms by (auto simp: strided_set)
  have "(\<Union>w\<in>{..<min NR n}. set (strided (2 * w) n (2 * NR))) =
      (\<Union>w\<in>{..<NR}. set (strided (2 * w) n (2 * NR)))"
  proof (intro set_eqI iffI)
    fix x assume "x \<in> (\<Union>w\<in>{..<min NR n}. set (strided (2 * w) n (2 * NR)))"
    then obtain w where "w < min NR n" "x \<in> set (strided (2 * w) n (2 * NR))" by auto
    then have "w < NR" "x \<in> set (strided (2 * w) n (2 * NR))" by auto
    then show "x \<in> (\<Union>w\<in>{..<NR}. set (strided (2 * w) n (2 * NR)))" by blast
  next
    fix x assume "x \<in> (\<Union>w\<in>{..<NR}. set (strided (2 * w) n (2 * NR)))"
    then obtain w where w: "w < NR" "x \<in> set (strided (2 * w) n (2 * NR))" by auto
    with e have "w < min NR n" by simp
    with w show "x \<in> (\<Union>w\<in>{..<min NR n}. set (strided (2 * w) n (2 * NR)))" by blast
  qed
  with strided_workers [OF assms] show ?thesis by simp
qed

lemma arg_indices_treeBuild:
  assumes "0 < NR"
  shows "(\<Union>a\<in>set (map (treeBuild_args prevLen NR d) [0 ..< min NR prevLen]). arg_indices a) =
    {i. even i \<and> i < prevLen}"
proof -
  have "(\<Union>a\<in>set (map (treeBuild_args prevLen NR d) [0 ..< min NR prevLen]). arg_indices a) =
      (\<Union>w\<in>{..<min NR prevLen}. set (strided (2 * w) prevLen (2 * NR)))"
    by (auto simp: arg_indices_def treeBuild_args_def zero_args_def)
  then show ?thesis using strided_workers_clamped [OF assms] by simp
qed

lemma treeBuildHandler_post:
  assumes rd: "ready (Config m)" and d: "Suc d < length (nodes m)"
    and ev: "even (length (nodes m ! d))" and nr: "0 < NR"
    and inv: "\<exists>dst. s = with_level m (Suc d) dst"
    and len: "length (nodes s ! Suc d) = length (nodes m ! d) div 2"
  shows "\<exists>s' e. treeBuildHandler (treeBuild_args (length (nodes m ! d)) NR d w) s = Some (s', e) \<and>
    (\<exists>dst. s' = with_level m (Suc d) dst) \<and>
    slot_post (nodes s ! Suc d) (arg_indices (treeBuild_args (length (nodes m ! d)) NR d w))
      (\<lambda>i. i div 2)
      (\<lambda>i. hp (hashPair (Config m)) (nodes m ! d ! i) (nodes m ! d ! (i + 1)))
      (\<lambda>i. okp (hashPair (Config m)) (nodes m ! d ! i) (nodes m ! d ! (i + 1)))
      (nodes s' ! Suc d) e"
proof -
  let ?src = "nodes m ! d" let ?p = "length ?src div 2" let ?H = "hashPair (Config m)"
  let ?Inv = "\<lambda>s. \<exists>dst. s = with_level m (Suc d) dst"
  let ?is = "strided (2 * w) (length ?src) (2 * NR)"
  have evs: "\<forall>i\<in>set ?is. even i \<and> i < length ?src"
    using strided_worker_even [OF nr] by blast
  have rng: "\<forall>i\<in>set ?is. i + 1 < length ?src \<and> i div 2 < ?p"
    using evens_in_range [OF ev] evs by blast
  have "\<exists>s' e. for_loop ?is (treeBuildHandler_pair d) s = Some (s', e) \<and> ?Inv s' \<and>
           slot_post (nodes s ! Suc d) (set ?is) (\<lambda>i. i div 2)
             (\<lambda>i. hp ?H (?src ! i) (?src ! (i + 1))) (\<lambda>i. okp ?H (?src ! i) (?src ! (i + 1)))
             (nodes s' ! Suc d) e"
  proof (rule for_loop_slots [where Inv = ?Inv and get = "\<lambda>s. nodes s ! Suc d"])
    show "slot_spec (treeBuildHandler_pair d) (set ?is) ?Inv (\<lambda>s. nodes s ! Suc d) (\<lambda>i. i div 2)
        (\<lambda>i. hp ?H (?src ! i) (?src ! (i + 1))) (\<lambda>i. okp ?H (?src ! i) (?src ! (i + 1)))
        (length (nodes s ! Suc d))"
      unfolding len by (rule tree_pair_spec(2) [OF rd d rng])
    show "?Inv s" by (rule inv)
    show "inj_on (\<lambda>i. i div 2) (set ?is)" using evs by (intro inj_on_half) blast
    show "\<forall>i\<in>set ?is. i div 2 < length (nodes s ! Suc d)" unfolding len using rng by blast
  qed
  then show ?thesis
    using nr by (simp add: treeBuildHandler_def treeBuild_args_def zero_args_def arg_indices_def)
qed

lemma treeBuild_pool_level:
  assumes rd: "ready (Config m)" and d: "Suc d < length (nodes m)"
    and ev: "even (length (nodes m ! d))" and nr: "0 < NR"
  shows "\<exists>s' es. pool_Map treeBuildHandler
            (map (treeBuild_args (length (nodes m ! d)) NR d) [0 ..< min NR (length (nodes m ! d))])
            (with_level m (Suc d) (make_slice (length (nodes m ! d) div 2))) = Some (s', es) \<and>
    (first_error es = None \<longleftrightarrow> level_ok (hashPair (Config m)) (nodes m ! d)) \<and>
    (first_error es = None \<longrightarrow>
       s' = with_level m (Suc d) (next_level (hashPair (Config m)) (nodes m ! d)))"
proof -
  let ?src = "nodes m ! d" let ?p = "length ?src div 2" let ?H = "hashPair (Config m)"
  let ?s = "with_level m (Suc d) (make_slice ?p)"
  let ?Inv = "\<lambda>s. \<exists>dst. s = with_level m (Suc d) dst"
  let ?ws = "map (treeBuild_args (length ?src) NR d) [0 ..< min NR (length ?src)]"
  let ?val = "\<lambda>i. hp ?H (?src ! i) (?src ! (i + 1))"
  let ?ok = "\<lambda>i. okp ?H (?src ! i) (?src ! (i + 1))"
  have gs: "nodes ?s ! Suc d = make_slice ?p" using d by simp
  have L: "length (nodes ?s ! Suc d) = ?p" using gs by (simp add: make_slice_def)
  have U: "(\<Union>a\<in>set ?ws. arg_indices a) = {i. even i \<and> i < length ?src}"
    by (rule arg_indices_treeBuild [OF nr])
  have "\<exists>s' es. pool_Map treeBuildHandler ?ws ?s = Some (s', es) \<and> ?Inv s' \<and>
           slot_post (nodes ?s ! Suc d) (\<Union>w\<in>set ?ws. arg_indices w) (\<lambda>i. i div 2) ?val ?ok
             (nodes s' ! Suc d) (first_error es)"
  proof (rule pool_Map_slots [where Inv = ?Inv and get = "\<lambda>s. nodes s ! Suc d" and L = ?p])
    fix w s assume w: "w \<in> set ?ws" and inv: "?Inv s" and len: "length (nodes s ! Suc d) = ?p"
    from w obtain k where "w = treeBuild_args (length ?src) NR d k" by auto
    then show "\<exists>s' e. treeBuildHandler w s = Some (s', e) \<and> ?Inv s' \<and>
        slot_post (nodes s ! Suc d) (arg_indices w) (\<lambda>i. i div 2) ?val ?ok (nodes s' ! Suc d) e"
      using treeBuildHandler_post [OF rd d ev nr inv len, of k] by simp
  next
    show "?Inv ?s" by blast
    show "length (nodes ?s ! Suc d) = ?p" by (rule L)
    show "inj_on (\<lambda>i. i div 2) (\<Union>w\<in>set ?ws. arg_indices w)"
      unfolding U by (rule inj_on_half) simp
    show "\<forall>w\<in>set ?ws. \<forall>i\<in>arg_indices w. i div 2 < ?p"
    proof (intro ballI)
      fix w i assume "w \<in> set ?ws" "i \<in> arg_indices w"
      then have "i \<in> (\<Union>a\<in>set ?ws. arg_indices a)" by blast
      then have "i \<in> {i. even i \<and> i < length ?src}" unfolding U .
      from evens_in_range [OF ev this] show "i div 2 < ?p" by simp
    qed
  qed
  then obtain s' es where run: "pool_Map treeBuildHandler ?ws ?s = Some (s', es)"
    and inv: "?Inv s'"
    and post: "slot_post (make_slice ?p) {i. even i \<and> i < length ?src} (\<lambda>i. i div 2) ?val ?ok
             (nodes s' ! Suc d) (first_error es)"
    unfolding gs U by blast
  have "first_error es = None \<longleftrightarrow> level_ok ?H ?src"
    by (rule tree_level_post(1) [OF d ev inv post])
  moreover have "first_error es = None \<longrightarrow> s' = with_level m (Suc d) (next_level ?H ?src)"
    using tree_level_post(2) [OF d ev inv post] by simp
  ultimately show ?thesis using run by simp
qed


subsection \<open>The levels of the retained tree\<close>

lemma built_props:
  assumes "built H leaves m0 i m prevLen" and "i < Depth m0"
  shows "Config m = Config m0" and "length (nodes m) = Depth m0"
    and "nodes m ! i = level H leaves i" and "prevLen = length (nodes m ! i)"
    and "even (length (nodes m ! i))" and "Depth m = Depth m0"
  using assms unfolding built_def by (auto simp: even_length_level)

lemma set_level_eq:
  "d < length (nodes m) \<Longrightarrow> set_level m d lv = Some (with_level m d lv)"
  by (simp add: set_level_def upd_opt_def with_level_def)

lemma fixOdd_level_built:
  assumes b: "built H leaves m0 i m prevLen" and i: "Suc i < Depth m0"
  shows "\<exists>m' pl'. fixOdd_level (with_level m (Suc i) (next_level H (level H leaves i))) (i + 1)
      = Some (m', pl') \<and> built H leaves m0 (Suc i) m' pl'"
proof -
  let ?nl = "next_level H (level H leaves i)"
  let ?s = "with_level m (Suc i) ?nl"
  from b obtain ns where m: "m = m0\<lparr>nodes := ns\<rparr>" and len: "length ns = Depth m0"
    and lv: "\<forall>k\<le>i. ns ! k = level H leaves k"
    unfolding built_def by blast
  have d: "Suc i < length (nodes m)" using m len i by simp
  have n1: "nth_opt (nodes ?s) (i + 1) = Some ?nl" using d by (simp add: nth_opt_def)
  from fixOdd_eq [of "length ?nl" ?nl] have f: "fixOdd ?nl (length ?nl) =
      Some (pad ?nl, length ?nl + length ?nl mod 2)" by auto
  have sl: "set_level ?s (i + 1) (pad ?nl) = Some (with_level ?s (Suc i) (pad ?nl))"
    using d by (simp add: set_level_eq)
  have run: "fixOdd_level ?s (i + 1) = Some (with_level ?s (Suc i) (pad ?nl), length ?nl + length ?nl mod 2)"
    using n1 f sl by (simp add: fixOdd_level_def)
  have w: "with_level ?s (Suc i) (pad ?nl) = m0\<lparr>nodes := ns[Suc i := level H leaves (Suc i)]\<rparr>"
    using m by (simp add: with_level_def)
  have "\<forall>k\<le>Suc i. ns[Suc i := level H leaves (Suc i)] ! k = level H leaves k"
    using lv len i by (auto simp: nth_list_update le_Suc_eq)
  then have "built H leaves m0 (Suc i) (with_level ?s (Suc i) (pad ?nl)) (length ?nl + length ?nl mod 2)"
    unfolding built_def w using len by (auto simp: length_pad)
  with run show ?thesis by blast
qed

lemma treeBuild_level_eq:
  assumes rd: "ready (Config m0)" and b: "built (hashPair (Config m0)) leaves m0 i m prevLen"
    and i: "Suc i < Depth m0"
  shows "\<exists>s' e. treeBuild_level i (m, prevLen) = Some (s', e) \<and>
    (e = None \<longleftrightarrow> level_ok (hashPair (Config m0)) (level (hashPair (Config m0)) leaves i)) \<and>
    (e = None \<longrightarrow> (case s' of (m', prevLen') \<Rightarrow>
        built (hashPair (Config m0)) leaves m0 (Suc i) m' prevLen')) \<and>
    (e \<noteq> None \<longrightarrow> True)"
proof -
  let ?H = "hashPair (Config m0)"
  have i': "i < Depth m0" using i by simp
  note p = built_props [OF b i']
  have d: "Suc i < length (nodes m)" using p(2) i by simp
  have rdm: "ready (Config m)" using rd p(1) by simp
  have sl: "set_level m (i + 1) (make_slice (prevLen div 2)) =
      Some (with_level m (Suc i) (make_slice (length (nodes m ! i) div 2)))"
    using d p(4) by (simp add: set_level_eq)
  from treeBuild_hash_level [OF rdm d p(5)] obtain s' e where
    run: "for_loop (strided 0 prevLen 2) (treeBuild_pair i)
            (with_level m (Suc i) (make_slice (length (nodes m ! i) div 2))) = Some (s', e)"
    and e: "e = None \<longleftrightarrow> level_ok ?H (level ?H leaves i)"
    and v: "e = None \<longrightarrow> s' = with_level m (Suc i) (next_level ?H (level ?H leaves i))"
    using p(1,3,4) by auto
  show ?thesis
  proof (cases e)
    case (Some x)
    with sl run e show ?thesis by (simp add: treeBuild_level_def)
  next
    case None
    from fixOdd_level_built [OF b i] obtain m' pl' where
      "fixOdd_level (with_level m (Suc i) (next_level ?H (level ?H leaves i))) (i + 1) = Some (m', pl')"
      "built ?H leaves m0 (Suc i) m' pl'" by blast
    with sl run e v None show ?thesis by (simp add: treeBuild_level_def)
  qed
qed

lemma computeTreeNodeParallel_level_eq:
  assumes rd: "ready (Config m0)" and nr: "0 < NumRoutines (Config m0)"
    and b: "built (hashPair (Config m0)) leaves m0 i m prevLen"
    and i: "Suc i < Depth m0"
  shows "\<exists>s' e. computeTreeNodeParallel_level i (m, prevLen) = Some (s', e) \<and>
    (e = None \<longleftrightarrow> level_ok (hashPair (Config m0)) (level (hashPair (Config m0)) leaves i)) \<and>
    (e = None \<longrightarrow> (case s' of (m', prevLen') \<Rightarrow>
        built (hashPair (Config m0)) leaves m0 (Suc i) m' prevLen')) \<and>
    (e \<noteq> None \<longrightarrow> True)"
proof -
  let ?H = "hashPair (Config m0)"
  have i': "i < Depth m0" using i by simp
  note p = built_props [OF b i']
  have d: "Suc i < length (nodes m)" using p(2) i by simp
  have rdm: "ready (Config m)" using rd p(1) by simp
  let ?s = "with_level m (Suc i) (make_slice (length (nodes m ! i) div 2))"
  have sl: "set_level m (i + 1) (make_slice (prevLen div 2)) = Some ?s"
    using d p(4) by (simp add: set_level_eq)
  let ?NR = "nat (NumRoutines (Config m0))"
  have NR: "0 < ?NR" using nr by simp
  from treeBuild_pool_level [OF rdm d p(5) NR] obtain s' es where
    run: "pool_Map treeBuildHandler
            (map (treeBuild_args prevLen ?NR i) [0 ..< min ?NR prevLen]) ?s = Some (s', es)"
    and e: "first_error es = None \<longleftrightarrow> level_ok ?H (level ?H leaves i)"
    and v: "first_error es = None \<longrightarrow> s' = with_level m (Suc i) (next_level ?H (level ?H leaves i))"
    using p(1,3,4) by auto
  have mn: "(if ?NR > prevLen then prevLen else ?NR) = min ?NR prevLen" by (simp add: min_def)
  have cs: "Config ?s = Config m0" using p(1) by simp
  have unfold: "computeTreeNodeParallel_level i (m, prevLen) =
      (case first_error es of
         Some e \<Rightarrow> Some ((s', prevLen), Some e)
       | None \<Rightarrow> do { (m, prevLen) \<leftarrow> fixOdd_level s' (i + 1); Some ((m, prevLen), None) })"
    unfolding computeTreeNodeParallel_level_def prod.case sl Let_def Option.bind.simps cs mn
    using run nr unfolding treeBuild_args_def by simp
  show ?thesis
  proof (cases "first_error es")
    case (Some x)
    with unfold e show ?thesis by simp
  next
    case None
    from fixOdd_level_built [OF b i] obtain m' pl' where
      "fixOdd_level (with_level m (Suc i) (next_level ?H (level ?H leaves i))) (i + 1) = Some (m', pl')"
      "built ?H leaves m0 (Suc i) m' pl'" by blast
    with unfold e v None show ?thesis by simp
  qed
qed

lemma levels_ok_iff0:
  "levels_ok H leaves D \<longleftrightarrow> (\<forall>i. 0 \<le> i \<and> i < D - 1 \<longrightarrow> level_ok H (level H leaves i))"
  unfolding levels_ok_def list_all_iff by auto

lemma tree_levels_loop:
  assumes step: "\<And>i m prevLen. built H leaves m0 i m prevLen \<Longrightarrow> Suc i < Depth m0 \<Longrightarrow>
      \<exists>s' e. body i (m, prevLen) = Some (s', e) \<and>
        (e = None \<longleftrightarrow> level_ok H (level H leaves i)) \<and>
        (e = None \<longrightarrow> (case s' of (m', prevLen') \<Rightarrow> built H leaves m0 (Suc i) m' prevLen')) \<and>
        (e \<noteq> None \<longrightarrow> True)"
    and b: "built H leaves m0 0 m prevLen"
  shows "\<exists>s' e. for_loop [0 ..< Depth m0 - 1] body (m, prevLen) = Some (s', e) \<and>
    (e = None \<longleftrightarrow> levels_ok H leaves (Depth m0)) \<and>
    (e = None \<longrightarrow> (case s' of (m', prevLen') \<Rightarrow> built H leaves m0 (Depth m0 - 1) m' prevLen'))"
proof -
  let ?D = "Depth m0"
  let ?I = "\<lambda>i (s :: MerkleTree \<times> nat). case s of (m', prevLen') \<Rightarrow> built H leaves m0 i m' prevLen'"
  have "\<exists>s' e. for_loop [0 ..< ?D - 1] body (m, prevLen) = Some (s', e) \<and>
           (e = None \<longleftrightarrow> (\<forall>i. 0 \<le> i \<and> i < ?D - 1 \<longrightarrow> level_ok H (level H leaves i))) \<and>
           (e = None \<longrightarrow> ?I (?D - 1) s') \<and> (e \<noteq> None \<longrightarrow> True)"
  proof (rule for_loop_upt [where I = ?I and F = "\<lambda>s. True"])
    show "?I 0 (m, prevLen)" using b by simp
    show "0 \<le> ?D - 1" by simp
  next
    fix i and s :: "MerkleTree \<times> nat"
    assume i: "0 \<le> i" "i < ?D - 1" and inv: "?I i s"
    obtain m' pl' where s: "s = (m', pl')" by (cases s)
    with inv have bb: "built H leaves m0 i m' pl'" by simp
    have "Suc i < ?D" using i by simp
    from step [OF bb this] s
    show "\<exists>s' e. body i s = Some (s', e) \<and> (e = None \<longleftrightarrow> level_ok H (level H leaves i)) \<and>
        (e = None \<longrightarrow> ?I (Suc i) s') \<and> (e \<noteq> None \<longrightarrow> True)"
      by simp
  qed
  then have "\<exists>s' e. for_loop [0 ..< ?D - 1] body (m, prevLen) = Some (s', e) \<and>
           (e = None \<longleftrightarrow> levels_ok H leaves ?D) \<and>
           (e = None \<longrightarrow> ?I (?D - 1) s') \<and> (e \<noteq> None \<longrightarrow> True)"
    by (simp only: levels_ok_iff0)
  then show ?thesis
    by (elim exE conjE) (intro exI conjI; assumption)
qed

subsection \<open>\<open>treeBuild\<close>\<close>

lemma for_each_fold:
  assumes "\<And>i s. i \<in> set is \<Longrightarrow> f i s = Some (g i s)"
  shows "for_each is f s = Some (fold g is s)"
  using assms by (induction "is" arbitrary: s) simp_all

lemma leafMap_loop:
  "for_each [0 ..< length leaves]
     (\<lambda>i lm. do { leaf \<leftarrow> nth_opt leaves i; Some (lm(leaf \<mapsto> i)) }) Map.empty
   = Some (index_of leaves)"
  unfolding index_of_def by (rule for_each_fold) (simp add: nth_opt_def)

lemma built_weaken:
  assumes "built H leaves m0 i m pl" and "j \<le> i"
  shows "built H leaves m0 j m (length (level H leaves j))"
  using assms unfolding built_def by auto

lemma built_nodes:
  assumes "built H leaves m0 (Depth m0 - 1) m pl" and "0 < Depth m0"
  shows "m = m0\<lparr>nodes := map (level H leaves) [0 ..< Depth m0]\<rparr>"
proof -
  from assms(1) obtain ns where m: "m = m0\<lparr>nodes := ns\<rparr>" and len: "length ns = Depth m0"
    and lv: "\<forall>k\<le>Depth m0 - 1. ns ! k = level H leaves k"
    unfolding built_def by blast
  have "ns = map (level H leaves) [0 ..< Depth m0]"
    using len lv assms(2) by (intro nth_equalityI) auto
  with m show ?thesis by simp
qed

lemma treeBuild_start:
  assumes nl: "NumLeaves m = length (Leaves m)" and D0: "0 < Depth m"
    and lm: "leafMap m = Map.empty"
  shows "treeBuild m = treeBuild_levels
      (m\<lparr>leafMap := index_of (Leaves m), nodes := (replicate (Depth m) [])[0 := pad (Leaves m)]\<rparr>)
      (length (Leaves m) + length (Leaves m) mod 2)"
proof -
  let ?leaves = "Leaves m" let ?n = "length ?leaves" let ?D = "Depth m"
  have 1: "for_each [0 ..< NumLeaves m]
     (\<lambda>i lm. do { leaf \<leftarrow> nth_opt ?leaves i; Some (lm(leaf \<mapsto> i)) }) (leafMap m)
      = Some (index_of ?leaves)"
    using leafMap_loop [of ?leaves] nl lm by simp
  have 2: "copy_slice (make_slice (NumLeaves m)) ?leaves = ?leaves"
    using nl by (simp add: copy_slice_make)
  have 3: "nth_opt ((replicate ?D [])[0 := ?leaves]) 0 = Some ?leaves"
    using D0 by (simp add: nth_opt_def)
  from fixOdd_eq [of ?n ?leaves] have 4: "fixOdd ?leaves (NumLeaves m) = Some (pad ?leaves, ?n + ?n mod 2)"
    using nl by auto
  show ?thesis
    using D0 by (simp add: treeBuild_def 1 2 3 4 Let_def set_level_def upd_opt_def)
qed

lemma built_start:
  assumes D0: "0 < Depth m"
  shows "built H (Leaves m)
     (m\<lparr>leafMap := lm, nodes := (replicate (Depth m) [])[0 := pad (Leaves m)]\<rparr>) 0
     (m\<lparr>leafMap := lm, nodes := (replicate (Depth m) [])[0 := pad (Leaves m)]\<rparr>)
     (length (Leaves m) + length (Leaves m) mod 2)"
  unfolding built_def
proof (intro conjI exI [of _ "(replicate (Depth m) [])[0 := pad (Leaves m)]"])
  show "\<forall>k\<le>0. (replicate (Depth m) [])[0 := pad (Leaves m)] ! k = level H (Leaves m) k"
    using D0 by simp
qed (simp_all add: length_pad)


lemma computeTreeNodeParallel_eq:
  assumes rd: "ready (Config mc)" and nr: "0 < NumRoutines (Config mc)"
    and b: "built (hashPair (Config mc)) leaves mc 0 mc pl" and D0: "0 < Depth mc"
  shows "\<exists>m1 e1. computeTreeNodeParallel mc pl = Some (m1, e1) \<and>
    (e1 = None \<longleftrightarrow> levels_ok (hashPair (Config mc)) leaves (Depth mc)) \<and>
    (e1 = None \<longrightarrow> built (hashPair (Config mc)) leaves mc 0 m1 pl)"
proof -
  let ?H = "hashPair (Config mc)"
  have "\<exists>s' e. for_loop [0 ..< Depth mc - 1] computeTreeNodeParallel_level (mc, pl) = Some (s', e) \<and>
    (e = None \<longleftrightarrow> levels_ok ?H leaves (Depth mc)) \<and>
    (e = None \<longrightarrow> (case s' of (m', prevLen') \<Rightarrow> built ?H leaves mc (Depth mc - 1) m' prevLen'))"
    by (rule tree_levels_loop [OF _ b]) (rule computeTreeNodeParallel_level_eq [OF rd nr])
  then obtain s' e where run: "for_loop [0 ..< Depth mc - 1] computeTreeNodeParallel_level (mc, pl) = Some (s', e)"
    and e: "e = None \<longleftrightarrow> levels_ok ?H leaves (Depth mc)"
    and inv: "e = None \<longrightarrow> (case s' of (m', prevLen') \<Rightarrow> built ?H leaves mc (Depth mc - 1) m' prevLen')"
    by (elim exE conjE)
  obtain m1 pl1 where s': "s' = (m1, pl1)" by (cases s')
  have pl: "pl = length (level ?H leaves 0)" using b by (simp add: built_def)
  have "e = None \<longrightarrow> built ?H leaves mc 0 m1 pl"
    using inv s' built_weaken [of ?H leaves mc "Depth mc - 1" m1 pl1 0] pl by simp
  moreover have "computeTreeNodeParallel mc pl = Some (m1, e)"
    using run s' by (simp add: computeTreeNodeParallel_def)
  ultimately show ?thesis using e by simp
qed

lemma treeBuild_levels_eq:
  assumes rd: "ready (Config mc)"
    and par: "RunInParallel (Config mc) \<longrightarrow> 0 < NumRoutines (Config mc)"
    and b: "built (hashPair (Config mc)) leaves mc 0 mc pl"
    and n2: "2 \<le> length leaves" and D: "Depth mc = bits_Len (length leaves - 1)"
  shows "\<exists>m' e. treeBuild_levels mc pl = Some (m', e) \<and>
    (e = None \<longleftrightarrow> levels_ok (hashPair (Config mc)) leaves (Depth mc) \<and>
                     root_ok (hashPair (Config mc)) leaves (Depth mc)) \<and>
    (e = None \<longrightarrow> m' = mc\<lparr>nodes := map (level (hashPair (Config mc)) leaves) [0 ..< Depth mc],
                          Root := root_of (hashPair (Config mc)) leaves (Depth mc)\<rparr>)"
proof -
  let ?H = "hashPair (Config mc)" let ?D = "Depth mc"
  have D0: "0 < ?D"
    using n2 D by (subst (asm) bits_Len.simps) (auto split: if_splits)
  let ?r1 = "if RunInParallel (Config mc) then computeTreeNodeParallel mc pl else Some (mc, None)"
  have "\<exists>m1 e1. ?r1 = Some (m1, e1) \<and> (e1 \<noteq> None \<longrightarrow> \<not> levels_ok ?H leaves ?D) \<and>
      (e1 = None \<longrightarrow> built ?H leaves mc 0 m1 pl)"
  proof (cases "RunInParallel (Config mc)")
    case True
    with par have nr: "0 < NumRoutines (Config mc)" by simp
    from computeTreeNodeParallel_eq [OF rd nr b D0] True show ?thesis by auto
  next
    case False
    with b show ?thesis by simp
  qed
  then obtain m1 e1 where r1: "?r1 = Some (m1, e1)"
    and e1: "e1 \<noteq> None \<longrightarrow> \<not> levels_ok ?H leaves ?D"
    and b1: "e1 = None \<longrightarrow> built ?H leaves mc 0 m1 pl"
    by (elim exE conjE)
  show ?thesis
  proof (cases e1)
    case (Some x)
    then have "treeBuild_levels mc pl = Some (m1, Some x)"
      using r1 by (simp add: treeBuild_levels_def)
    with e1 Some show ?thesis by simp
  next
    case None
    with b1 have bb: "built ?H leaves mc 0 m1 pl" by simp
    have d1: "Depth m1 = ?D" using built_props(6) [OF bb D0] .
    have "\<exists>s' e. for_loop [0 ..< ?D - 1] treeBuild_level (m1, pl) = Some (s', e) \<and>
      (e = None \<longleftrightarrow> levels_ok ?H leaves ?D) \<and>
      (e = None \<longrightarrow> (case s' of (m', prevLen') \<Rightarrow> built ?H leaves mc (?D - 1) m' prevLen'))"
      by (rule tree_levels_loop [OF _ bb]) (rule treeBuild_level_eq [OF rd])
    then obtain s2 e2 where run: "for_loop [0 ..< ?D - 1] treeBuild_level (m1, pl) = Some (s2, e2)"
      and e2: "e2 = None \<longleftrightarrow> levels_ok ?H leaves ?D"
      and inv: "e2 = None \<longrightarrow> (case s2 of (m', prevLen') \<Rightarrow> built ?H leaves mc (?D - 1) m' prevLen')"
      by (elim exE conjE)
    obtain m2 pl2 where s2: "s2 = (m2, pl2)" by (cases s2)
    show ?thesis
    proof (cases e2)
      case (Some x)
      then have "treeBuild_levels mc pl = Some (m2, Some x)"
        using r1 None run s2 d1 by (simp add: treeBuild_levels_def)
      with e2 Some show ?thesis by simp
    next
      case None2: None
      with inv s2 have b2: "built ?H leaves mc (?D - 1) m2 pl2" by simp
      have m2: "m2 = mc\<lparr>nodes := map (level ?H leaves) [0 ..< ?D]\<rparr>"
        by (rule built_nodes [OF b2 D0])
      have top: "length (level ?H leaves (?D - 1)) = 2"
        using length_top_level [OF n2, of ?H] D by simp
      have lvl: "nth_opt (nodes m2) (Depth m2 - 1) = Some (level ?H leaves (?D - 1))"
        using m2 D0 by (simp add: nth_opt_def)
      have rd2: "ready (Config m2)" using rd m2 by simp
      have tk: "take 2 (level ?H leaves (?D - 1)) = level ?H leaves (?D - 1)" using top by simp
      have le: "2 \<le> length (level ?H leaves (?D - 1))" using top by simp
      from setRoot_eq [OF rd2 tk le] obtain m' e where
        sr: "setRoot m2 (level ?H leaves (?D - 1)) = Some (m', e)"
        and e: "e = None \<longleftrightarrow> root_ok ?H leaves ?D"
        and v: "e = None \<longrightarrow> m' = m2\<lparr>Root := root_of ?H leaves ?D\<rparr>"
        using m2 by (auto simp: root_ok_def root_of_def)
      have "treeBuild_levels mc pl = Some (m', e)"
        using r1 None run s2 d1 None2 lvl sr by (simp add: treeBuild_levels_def)
      with e v e2 None2 m2 show ?thesis by simp
    qed
  qed
qed

lemma treeBuild_eq:
  assumes rd: "ready (Config m)"
    and par: "RunInParallel (Config m) \<longrightarrow> 0 < NumRoutines (Config m)"
    and nl: "NumLeaves m = length (Leaves m)" and n2: "2 \<le> length (Leaves m)"
    and D: "Depth m = bits_Len (length (Leaves m) - 1)" and lm: "leafMap m = Map.empty"
  shows "\<exists>m' e. treeBuild m = Some (m', e) \<and>
    (e = None \<longleftrightarrow> levels_ok (hashPair (Config m)) (Leaves m) (Depth m) \<and>
                     root_ok (hashPair (Config m)) (Leaves m) (Depth m)) \<and>
    (e = None \<longrightarrow> m' = m\<lparr>leafMap := index_of (Leaves m),
                          nodes := map (level (hashPair (Config m)) (Leaves m)) [0 ..< Depth m],
                          Root := root_of (hashPair (Config m)) (Leaves m) (Depth m)\<rparr>)"
proof -
  let ?mc = "m\<lparr>leafMap := index_of (Leaves m), nodes := (replicate (Depth m) [])[0 := pad (Leaves m)]\<rparr>"
  let ?pl = "length (Leaves m) + length (Leaves m) mod 2"
  have D0: "0 < Depth m"
    using n2 D by (subst (asm) bits_Len.simps) (auto split: if_splits)
  have tb: "treeBuild m = treeBuild_levels ?mc ?pl" by (rule treeBuild_start [OF nl D0 lm])
  have b: "built (hashPair (Config ?mc)) (Leaves m) ?mc 0 ?mc ?pl"
    using built_start [OF D0, of "hashPair (Config m)" "index_of (Leaves m)"] by simp
  have rd': "ready (Config ?mc)" using rd by simp
  have par': "RunInParallel (Config ?mc) \<longrightarrow> 0 < NumRoutines (Config ?mc)" using par by simp
  have D': "Depth ?mc = bits_Len (length (Leaves m) - 1)" using D by simp
  from treeBuild_levels_eq [OF rd' par' b n2 D'] show ?thesis unfolding tb by simp
qed

subsection \<open>The leaves\<close>

lemma leafFromBlock_ready:
  assumes "ready c"
  shows "(leaf_ok c b \<and> leafFromBlock b c = Some (Inr (leaf_of c b))) \<or>
         (\<not> leaf_ok c b \<and> (\<exists>e. leafFromBlock b c = Some (Inl e)))"
proof -
  from assms obtain h where h: "HashFunc c = Some h" by (auto simp: ready_def)
  show ?thesis
  proof (cases "Serialize b")
    case (Inl e)
    then show ?thesis by (simp add: leafFromBlock_def leaf_ok_def)
  next
    case (Inr bs)
    show ?thesis
    proof (cases "DisableLeafHashing c")
      case True
      with Inr show ?thesis by (simp add: leafFromBlock_def leaf_ok_def leaf_of_def)
    next
      case False
      with Inr h show ?thesis
        by (cases "h bs") (simp_all add: leafFromBlock_def leaf_ok_def leaf_of_def)
    qed
  qed
qed

lemma leafGen_body_spec:
  assumes "ready c" and "\<forall>i\<in>I. i < length blocks" and "L = length blocks"
  shows "slot_spec (leafGen_body c blocks) I (\<lambda>s. True) (\<lambda>s. s) (\<lambda>i. i)
           (\<lambda>i. leaf_of c (blocks ! i)) (\<lambda>i. leaf_ok c (blocks ! i)) L"
  unfolding slot_spec_def
proof (intro ballI allI impI)
  fix i and s :: "bytes list"
  assume i: "i \<in> I" and s: "True \<and> length s = L"
  with assms have r: "i < length blocks" "i < length s" by auto
  from leafFromBlock_ready [OF assms(1), of "blocks ! i"] r s
  show "\<exists>s' e. leafGen_body c blocks i s = Some (s', e) \<and> True \<and> length s' = L \<and>
      (e = None \<longleftrightarrow> leaf_ok c (blocks ! i)) \<and>
      (leaf_ok c (blocks ! i) \<longrightarrow> s' = s[i := leaf_of c (blocks ! i)])"
    by (auto simp: leafGen_body_def nth_opt_def upd_opt_def)
qed

lemma slot_post_leaves:
  assumes "slot_post (make_slice (length blocks)) {..<length blocks} (\<lambda>i. i)
      (\<lambda>i. leaf_of c (blocks ! i)) (\<lambda>i. leaf_ok c (blocks ! i)) ls e"
  shows "e = None \<longleftrightarrow> list_all (leaf_ok c) blocks"
    and "e = None \<Longrightarrow> ls = map (leaf_of c) blocks"
proof -
  have "(\<forall>i\<in>{..<length blocks}. leaf_ok c (blocks ! i)) \<longleftrightarrow> list_all (leaf_ok c) blocks"
    by (auto simp: list_all_length)
  with assms show e: "e = None \<longleftrightarrow> list_all (leaf_ok c) blocks" by (simp add: slot_post_def)
  assume "e = None"
  with assms have "length ls = length blocks" "\<forall>i\<in>{..<length blocks}. ls ! i = leaf_of c (blocks ! i)"
    by (auto simp: slot_post_def make_slice_def)
  then show "ls = map (leaf_of c) blocks" by (intro nth_equalityI) auto
qed

lemma leafGen_eq:
  assumes rd: "ready (Config m)" and nl: "NumLeaves m = length blocks"
  shows "\<exists>ls e. leafGen m blocks = Some (ls, e) \<and>
    (e = None \<longleftrightarrow> list_all (leaf_ok (Config m)) blocks) \<and>
    (e = None \<longrightarrow> ls = map (leaf_of (Config m)) blocks)"
proof -
  let ?c = "Config m" let ?n = "length blocks"
  have "\<exists>s' e. for_loop [0 ..< ?n] (leafGen_body ?c blocks) (make_slice ?n) = Some (s', e) \<and> True \<and>
      slot_post (make_slice ?n) (set [0 ..< ?n]) (\<lambda>i. i)
        (\<lambda>i. leaf_of ?c (blocks ! i)) (\<lambda>i. leaf_ok ?c (blocks ! i)) s' e"
  proof (rule for_loop_slots [where Inv = "\<lambda>s. True" and get = "\<lambda>s. s"])
    show "slot_spec (leafGen_body ?c blocks) (set [0 ..< ?n]) (\<lambda>s. True) (\<lambda>s. s) (\<lambda>i. i)
        (\<lambda>i. leaf_of ?c (blocks ! i)) (\<lambda>i. leaf_ok ?c (blocks ! i)) (length (make_slice ?n))"
      by (rule leafGen_body_spec [OF rd]) (simp_all add: make_slice_def)
  qed (simp_all add: make_slice_def)
  then obtain s' e where run: "for_loop [0 ..< ?n] (leafGen_body ?c blocks) (make_slice ?n) = Some (s', e)"
    and post: "slot_post (make_slice ?n) {..<?n} (\<lambda>i. i)
        (\<lambda>i. leaf_of ?c (blocks ! i)) (\<lambda>i. leaf_ok ?c (blocks ! i)) s' e"
    by (auto simp: lessThan_atLeast0)
  note p = slot_post_leaves [OF post]
  show ?thesis
  proof (cases e)
    case None
    with run p nl show ?thesis by (simp add: leafGen_def)
  next
    case (Some x)
    with run p(1) nl show ?thesis by (simp add: leafGen_def)
  qed
qed

lemma strided_workers1:
  assumes "0 < nr"
  shows "(\<Union>w\<in>{..<nr}. set (strided w n nr)) = {..<n}"
proof (intro set_eqI iffI)
  fix i assume "i \<in> (\<Union>w\<in>{..<nr}. set (strided w n nr))"
  then show "i \<in> {..<n}" using assms by (auto simp: strided_set)
next
  fix i assume "i \<in> {..<n}"
  then have i: "i < n" by simp
  let ?w = "i mod nr"
  have "i - ?w = nr * (i div nr)" by (simp add: minus_mod_eq_mult_div)
  then have "nr dvd (i - ?w)" by simp
  moreover have "?w \<le> i" by (rule mod_less_eq_dividend)
  ultimately have "i \<in> set (strided ?w n nr)" using assms i by (simp add: strided_set)
  moreover have "?w < nr" using assms by simp
  ultimately show "i \<in> (\<Union>w\<in>{..<nr}. set (strided w n nr))" by blast
qed

lemma leafGenHandler_post:
  assumes rd: "ready (Config m)" and nr: "0 < nr" and len: "length s = length blocks"
  shows "\<exists>s' e. leafGenHandler m (leafGen_args blocks nr w) s = Some (s', e) \<and> True \<and>
    slot_post s (leaf_indices (leafGen_args blocks nr w)) (\<lambda>i. i)
      (\<lambda>i. leaf_of (Config m) (blocks ! i)) (\<lambda>i. leaf_ok (Config m) (blocks ! i)) s' e"
proof -
  let ?c = "Config m" let ?n = "length blocks"
  let ?is = "strided w ?n nr"
  have rng: "\<forall>i\<in>set ?is. i < ?n" using nr by (simp add: strided_set)
  have "\<exists>s' e. for_loop ?is (leafGen_body ?c blocks) s = Some (s', e) \<and> True \<and>
      slot_post s (set ?is) (\<lambda>i. i)
        (\<lambda>i. leaf_of ?c (blocks ! i)) (\<lambda>i. leaf_ok ?c (blocks ! i)) s' e"
  proof (rule for_loop_slots [where Inv = "\<lambda>s. True" and get = "\<lambda>s. s"])
    show "slot_spec (leafGen_body ?c blocks) (set ?is) (\<lambda>s. True) (\<lambda>s. s) (\<lambda>i. i)
        (\<lambda>i. leaf_of ?c (blocks ! i)) (\<lambda>i. leaf_ok ?c (blocks ! i)) (length s)"
      by (rule leafGen_body_spec [OF rd rng]) (simp add: len)
    show "\<forall>i\<in>set ?is. i < length s" using rng len by simp
  qed simp_all
  then show ?thesis
    using nr by (simp add: leafGenHandler_def leafGen_args_def leaf_indices_def zero_args_def)
qed

lemma leafGenParallel_eq:
  assumes rd: "ready (Config m)" and nr: "0 < NumRoutines (Config m)" and ne: "blocks \<noteq> []"
  shows "\<exists>ls e. leafGenParallel m blocks = Some (ls, e) \<and>
    (e = None \<longleftrightarrow> list_all (leaf_ok (Config m)) blocks) \<and>
    (e = None \<longrightarrow> ls = map (leaf_of (Config m)) blocks)"
proof -
  let ?c = "Config m" let ?n = "length blocks"
  define nr where "nr = (if nat (NumRoutines ?c) > ?n then ?n else nat (NumRoutines ?c))"
  have nr0: "0 < nr" using nr ne by (simp add: nr_def)
  let ?ws = "map (leafGen_args blocks nr) [0 ..< nr]"
  let ?val = "\<lambda>i. leaf_of ?c (blocks ! i)" let ?ok = "\<lambda>i. leaf_ok ?c (blocks ! i)"
  have U: "(\<Union>a\<in>set ?ws. leaf_indices a) = {..<?n}"
  proof -
    have "(\<Union>a\<in>set ?ws. leaf_indices a) = (\<Union>w\<in>{..<nr}. set (strided w ?n nr))"
      by (auto simp: leaf_indices_def leafGen_args_def zero_args_def)
    with strided_workers1 [OF nr0] show ?thesis by simp
  qed
  have "\<exists>s' es. pool_Map (leafGenHandler m) ?ws (make_slice ?n) = Some (s', es) \<and> True \<and>
           slot_post (make_slice ?n) (\<Union>w\<in>set ?ws. leaf_indices w) (\<lambda>i. i) ?val ?ok s' (first_error es)"
  proof (rule pool_Map_slots [where Inv = "\<lambda>s. True" and get = "\<lambda>s. s" and L = ?n])
    fix w and s :: "bytes list"
    assume "w \<in> set ?ws" and len: "length s = ?n"
    then obtain k where "w = leafGen_args blocks nr k" by auto
    then show "\<exists>s' e. leafGenHandler m w s = Some (s', e) \<and> True \<and>
        slot_post s (leaf_indices w) (\<lambda>i. i) ?val ?ok s' e"
      using leafGenHandler_post [OF rd nr0 len, of k] by simp
  next
    show "\<forall>w\<in>set ?ws. \<forall>i\<in>leaf_indices w. i < ?n"
    proof (intro ballI)
      fix w i assume "w \<in> set ?ws" "i \<in> leaf_indices w"
      then have "i \<in> (\<Union>a\<in>set ?ws. leaf_indices a)" by blast
      then show "i < ?n" unfolding U by simp
    qed
  qed (simp_all add: make_slice_def)
  then obtain s' es where run: "pool_Map (leafGenHandler m) ?ws (make_slice ?n) = Some (s', es)"
    and post: "slot_post (make_slice ?n) {..<?n} (\<lambda>i. i) ?val ?ok s' (first_error es)"
    unfolding U by (elim exE conjE)
  note p = slot_post_leaves [OF post]
  have unfold: "leafGenParallel m blocks =
      (case first_error es of Some e \<Rightarrow> Some ([], Some e) | None \<Rightarrow> Some (s', None))"
    unfolding leafGenParallel_def Let_def nr_def [symmetric]
    using run nr unfolding leafGen_args_def by simp
  show ?thesis
  proof (cases "first_error es")
    case None
    with unfold p show ?thesis by simp
  next
    case (Some x)
    with unfold p(1) show ?thesis by simp
  qed
qed

subsection \<open>Recording the proofs from the retained levels\<close>

lemma New_updateProofs_gen:
  assumes upd: "\<And>m buf bufLen i. Config m = Config m0 \<Longrightarrow>
       \<forall>i. even i \<and> i < bufLen \<longrightarrow> i + 1 < length buf \<Longrightarrow>
       update m buf bufLen i = Some (m\<lparr>Proofs := record_pairs {x. even x \<and> x < bufLen} buf i (Proofs m)\<rparr>)"
    and nodes: "nodes m0 = map (level H leaves) [0 ..< D]"
    and nl: "NumLeaves m0 = length leaves"
  shows "for_each [0 ..< length (nodes (initProofs m0))]
       (\<lambda>i m. do { level \<leftarrow> nth_opt (nodes m) i; update m level (length level) i }) (initProofs m0)
     = Some (m0\<lparr>Proofs := map (proof_of H leaves D) [0 ..< length leaves]\<rparr>)"
proof -
  let ?I = "\<lambda>i s. s = m0\<lparr>Proofs := map (proof_of H leaves i) [0 ..< length leaves]\<rparr>"
  let ?body = "\<lambda>i m. do { level \<leftarrow> nth_opt (nodes m) i; update m level (length level) i }"
  have len: "length (nodes (initProofs m0)) = D" using nodes by (simp add: initProofs_def)
  have "\<exists>s'. for_each [0 ..< D] ?body (initProofs m0) = Some s' \<and> ?I D s'"
  proof (rule for_each_upt [where I = ?I])
    show "?I 0 (initProofs m0)" using initProofs_eq [OF nl] by simp
    show "0 \<le> D" by simp
  next
    fix i s assume i: "0 \<le> i" "i < D" and s: "?I i s"
    let ?lv = "level H leaves i"
    have n: "nth_opt (nodes s) i = Some ?lv" using s nodes i by (simp add: nth_opt_def)
    have cfg: "Config s = Config m0" using s by simp
    have "update s ?lv (length ?lv) i =
        Some (s\<lparr>Proofs := record_pairs {x. even x \<and> x < length ?lv} ?lv i (Proofs s)\<rparr>)"
      by (rule upd [OF cfg]) (rule even_pairs_in_range [OF even_length_level], simp)
    moreover have "record_pairs {x. even x \<and> x < length ?lv} ?lv i (map (proof_of H leaves i) [0 ..< length leaves])
        = map (proof_of H leaves (Suc i)) [0 ..< length leaves]"
      by (rule record_level) (simp_all add: cover_level)
    ultimately show "\<exists>s'. ?body i s = Some s' \<and> ?I (Suc i) s'" using n s by simp
  qed
  then show ?thesis unfolding len by simp
qed

lemma New_updateProofs_eq:
  assumes "nodes m0 = map (level H leaves) [0 ..< D]" and "NumLeaves m0 = length leaves"
  shows "New_updateProofs (initProofs m0) =
    Some (m0\<lparr>Proofs := map (proof_of H leaves D) [0 ..< length leaves]\<rparr>)"
  unfolding New_updateProofs_def
  by (rule New_updateProofs_gen [where update = updateProofs, OF _ assms]) (rule updateProofs_eq)

lemma New_updateProofsParallel_eq:
  assumes "0 < NumRoutines (Config m0)"
    and "nodes m0 = map (level H leaves) [0 ..< D]" and "NumLeaves m0 = length leaves"
  shows "New_updateProofsParallel (initProofs m0) =
    Some (m0\<lparr>Proofs := map (proof_of H leaves D) [0 ..< length leaves]\<rparr>)"
  unfolding New_updateProofsParallel_def
  by (rule New_updateProofs_gen [where update = updateProofsParallel, OF _ assms(2,3)])
     (use assms(1) in \<open>simp add: updateProofsParallel_eq\<close>)

subsection \<open>\<open>New\<close>\<close>

lemma New_init_ready: "ready (Config (New_init rt config blocks))"
  by (cases config) (auto simp: New_init_def Let_def ready_def new_Config_def)

lemma New_init_fields:
  "NumLeaves (New_init rt config blocks) = length blocks"
  "Depth (New_init rt config blocks) = bits_Len (length blocks - 1)"
  "Leaves (New_init rt config blocks) = []"
  "leafMap (New_init rt config blocks) = Map.empty"
  "nodes (New_init rt config blocks) = []"
  "Proofs (New_init rt config blocks) = []"
  "Root (New_init rt config blocks) = []"
  by (simp_all add: New_init_def Let_def)

lemma Mode_zero: "Mode c = 0 \<Longrightarrow> c\<lparr>Mode := ModeProofGen\<rparr> = c"
  by (cases c) (simp add: ModeProofGen_def)

lemma Config_same: "m\<lparr>Config := Config m\<rparr> = m"
  by (cases m) simp

lemma proofGen_eq:
  assumes rd: "ready (Config m)"
    and par: "RunInParallel (Config m) \<longrightarrow> 0 < NumRoutines (Config m)"
    and nl: "NumLeaves m = length (Leaves m)" and n2: "2 \<le> length (Leaves m)"
    and D: "Depth m = bits_Len (length (Leaves m) - 1)"
  shows "\<exists>m' e. proofGen m = Some (m', e) \<and>
    (e = None \<longleftrightarrow> levels_ok (hashPair (Config m)) (Leaves m) (Depth m) \<and>
                     root_ok (hashPair (Config m)) (Leaves m) (Depth m)) \<and>
    (e = None \<longrightarrow> m' = m\<lparr>Proofs := map (proof_of (hashPair (Config m)) (Leaves m) (Depth m))
                                    [0 ..< length (Leaves m)],
                          Root := root_of (hashPair (Config m)) (Leaves m) (Depth m)\<rparr>)"
proof (cases "RunInParallel (Config m)")
  case True
  with par have "0 < NumRoutines (Config m)" by simp
  from proofGen_par [OF rd True this nl n2 D] show ?thesis .
next
  case False
  from proofGen_seq [OF rd False nl n2 D] show ?thesis .
qed

text \<open>The tree that \<open>New_mode\<close> returns when nothing fails.\<close>

lemma New_mode_eq:
  assumes rd: "ready (Config m)"
    and par: "RunInParallel (Config m) \<longrightarrow> 0 < NumRoutines (Config m)"
    and nl: "NumLeaves m = length (Leaves m)" and n2: "2 \<le> length (Leaves m)"
    and D: "Depth m = bits_Len (length (Leaves m) - 1)"
    and lm: "leafMap m = Map.empty" and nd: "nodes m = []" and pr: "Proofs m = []"
  shows "\<exists>r. New_mode m = Some r \<and>
    (snd r = None \<longleftrightarrow>
       (Mode (Config m) = ModeProofGen \<or> Mode (Config m) = ModeTreeBuild \<or>
        Mode (Config m) = ModeProofGenAndTreeBuild) \<and>
       levels_ok (hashPair (Config m)) (Leaves m) (Depth m) \<and>
       root_ok (hashPair (Config m)) (Leaves m) (Depth m)) \<and>
    (snd r = None \<longrightarrow> fst r = Some
       (m\<lparr>leafMap := (if Mode (Config m) = ModeProofGen then Map.empty else index_of (Leaves m)),
          nodes := (if Mode (Config m) = ModeProofGen then []
                    else map (level (hashPair (Config m)) (Leaves m)) [0 ..< Depth m]),
          Root := root_of (hashPair (Config m)) (Leaves m) (Depth m),
          Proofs := (if Mode (Config m) = ModeTreeBuild then []
                     else map (proof_of (hashPair (Config m)) (Leaves m) (Depth m))
                            [0 ..< length (Leaves m)])\<rparr>))"
proof -
  let ?H = "hashPair (Config m)" let ?leaves = "Leaves m" let ?D = "Depth m"
  let ?ok = "levels_ok ?H ?leaves ?D \<and> root_ok ?H ?leaves ?D"
  have m0: "(if Mode (Config m) = 0 then m\<lparr>Config := (Config m)\<lparr>Mode := ModeProofGen\<rparr>\<rparr> else m) = m"
    by (simp add: Mode_zero Config_same)
  consider (pg) "Mode (Config m) = ModeProofGen"
    | (tb) "Mode (Config m) = ModeTreeBuild"
    | (both) "Mode (Config m) = ModeProofGenAndTreeBuild"
    | (bad) "Mode (Config m) \<noteq> ModeProofGen" "Mode (Config m) \<noteq> ModeTreeBuild"
        "Mode (Config m) \<noteq> ModeProofGenAndTreeBuild"
    by blast
  then show ?thesis
  proof cases
    case pg
    from proofGen_eq [OF rd par nl n2 D] obtain m' e where
      p: "proofGen m = Some (m', e)" and e: "e = None \<longleftrightarrow> ?ok"
      and v: "e = None \<longrightarrow> m' = m\<lparr>Proofs := map (proof_of ?H ?leaves ?D) [0 ..< length ?leaves],
                                    Root := root_of ?H ?leaves ?D\<rparr>"
      by (elim exE conjE)
    have run: "New_mode m = Some (Some m', e)"
      unfolding New_mode_def Let_def m0 using pg p by simp
    have "e = None \<longrightarrow> m' = m\<lparr>leafMap := Map.empty, nodes := [], Root := root_of ?H ?leaves ?D,
        Proofs := map (proof_of ?H ?leaves ?D) [0 ..< length ?leaves]\<rparr>"
      using v lm [symmetric] nd [symmetric] by (cases m) simp
    with run e pg show ?thesis by (simp add: ModeProofGen_def ModeTreeBuild_def)
  next
    case tb
    let ?m = "m\<lparr>leafMap := Map.empty\<rparr>"
    have "\<exists>m' e. treeBuild ?m = Some (m', e) \<and>
      (e = None \<longleftrightarrow> levels_ok (hashPair (Config ?m)) (Leaves ?m) (Depth ?m) \<and>
                     root_ok (hashPair (Config ?m)) (Leaves ?m) (Depth ?m)) \<and>
      (e = None \<longrightarrow> m' = ?m\<lparr>leafMap := index_of (Leaves ?m),
                          nodes := map (level (hashPair (Config ?m)) (Leaves ?m)) [0 ..< Depth ?m],
                          Root := root_of (hashPair (Config ?m)) (Leaves ?m) (Depth ?m)\<rparr>)"
      by (rule treeBuild_eq) (use rd par nl n2 D in simp_all)
    then obtain m' e where
      p: "treeBuild ?m = Some (m', e)" and e: "e = None \<longleftrightarrow> ?ok"
      and v: "e = None \<longrightarrow> m' = m\<lparr>leafMap := index_of ?leaves,
                          nodes := map (level ?H ?leaves) [0 ..< ?D], Root := root_of ?H ?leaves ?D\<rparr>"
      by auto
    have run: "New_mode m = Some (Some m', e)"
      unfolding New_mode_def Let_def m0 using tb p by (simp add: ModeProofGen_def ModeTreeBuild_def)
    have "e = None \<longrightarrow> m' = m\<lparr>leafMap := index_of ?leaves,
        nodes := map (level ?H ?leaves) [0 ..< ?D], Root := root_of ?H ?leaves ?D, Proofs := []\<rparr>"
      using v pr [symmetric] by (cases m) simp
    with run e tb show ?thesis by (simp add: ModeProofGen_def ModeTreeBuild_def)
  next
    case both
    let ?m = "m\<lparr>leafMap := Map.empty\<rparr>"
    have "\<exists>m' e. treeBuild ?m = Some (m', e) \<and>
      (e = None \<longleftrightarrow> levels_ok (hashPair (Config ?m)) (Leaves ?m) (Depth ?m) \<and>
                     root_ok (hashPair (Config ?m)) (Leaves ?m) (Depth ?m)) \<and>
      (e = None \<longrightarrow> m' = ?m\<lparr>leafMap := index_of (Leaves ?m),
                          nodes := map (level (hashPair (Config ?m)) (Leaves ?m)) [0 ..< Depth ?m],
                          Root := root_of (hashPair (Config ?m)) (Leaves ?m) (Depth ?m)\<rparr>)"
      by (rule treeBuild_eq) (use rd par nl n2 D in simp_all)
    then obtain m' e where
      p: "treeBuild ?m = Some (m', e)" and e: "e = None \<longleftrightarrow> ?ok"
      and v: "e = None \<longrightarrow> m' = m\<lparr>leafMap := index_of ?leaves,
                          nodes := map (level ?H ?leaves) [0 ..< ?D], Root := root_of ?H ?leaves ?D\<rparr>"
      by auto
    have md: "Mode (Config m) \<noteq> ModeProofGen" "Mode (Config m) \<noteq> ModeTreeBuild"
      using both by (simp_all add: ModeProofGen_def ModeTreeBuild_def ModeProofGenAndTreeBuild_def)
    show ?thesis
    proof (cases e)
      case (Some x)
      have "New_mode m = Some (Some m', Some x)"
        unfolding New_mode_def Let_def m0 using both md p Some by simp
      with e Some show ?thesis by simp
    next
      case None
      with v have m': "m' = m\<lparr>leafMap := index_of ?leaves,
                          nodes := map (level ?H ?leaves) [0 ..< ?D], Root := root_of ?H ?leaves ?D\<rparr>"
        by simp
      have nodes': "nodes m' = map (level ?H ?leaves) [0 ..< ?D]" and nl': "NumLeaves m' = length ?leaves"
        and cfg': "Config m' = Config m"
        using m' nl by simp_all
      have up: "(if RunInParallel (Config m') then New_updateProofsParallel (initProofs m')
                 else New_updateProofs (initProofs m')) =
          Some (m'\<lparr>Proofs := map (proof_of ?H ?leaves ?D) [0 ..< length ?leaves]\<rparr>)"
        using New_updateProofs_eq [OF nodes' nl'] New_updateProofsParallel_eq [OF _ nodes' nl']
          par cfg' by simp
      have ci: "Config (initProofs m') = Config m'" by (simp add: initProofs_def)
      have run: "New_mode m = Some (Some (m'\<lparr>Proofs := map (proof_of ?H ?leaves ?D) [0 ..< length ?leaves]\<rparr>), None)"
        unfolding New_mode_def Let_def m0 using both md p None up ci
        by (cases "RunInParallel (Config m')") simp_all
      with e None both md m' show ?thesis by simp
    qed
  next
    case bad
    then have "New_mode m = Some (None, Some ErrInvalidConfigMode)"
      unfolding New_mode_def Let_def m0 by simp
    with bad show ?thesis by simp
  qed
qed


lemma New_eq:
  assumes n2: "2 \<le> length blocks"
    and cpu: "RunInParallel (Config (New_init rt config blocks)) \<longrightarrow>
              0 < NumRoutines (Config (New_init rt config blocks))"
  shows "\<exists>r. New rt config blocks = Some r \<and>
    (snd r = None \<longleftrightarrow> New_ok rt config blocks) \<and>
    (snd r = None \<longrightarrow> fst r = Some (New_spec rt config blocks))"
proof -
  let ?m0 = "New_init rt config blocks" let ?c = "Config ?m0"
  let ?leaves = "New_leaves rt config blocks"
  note f = New_init_fields [of rt config blocks]
  have rd: "ready ?c" by (rule New_init_ready)
  have ne: "blocks \<noteq> []" using n2 by auto
  let ?lg = "if RunInParallel ?c then leafGenParallel ?m0 blocks else leafGen ?m0 blocks"
  have "\<exists>ls e. ?lg = Some (ls, e) \<and> (e = None \<longleftrightarrow> list_all (leaf_ok ?c) blocks) \<and>
      (e = None \<longrightarrow> ls = map (leaf_of ?c) blocks)"
  proof (cases "RunInParallel ?c")
    case True
    with cpu have "0 < NumRoutines ?c" by simp
    from leafGenParallel_eq [OF rd this ne] True show ?thesis by simp
  next
    case False
    from leafGen_eq [OF rd f(1)] False show ?thesis by simp
  qed
  then obtain ls e where lg: "?lg = Some (ls, e)"
    and e: "e = None \<longleftrightarrow> list_all (leaf_ok ?c) blocks"
    and v: "e = None \<longrightarrow> ls = ?leaves"
    unfolding New_leaves_def by (elim exE conjE)
  have guard: "\<not> (RunInParallel ?c \<and> NumRoutines ?c \<le> 0)" using cpu by auto
  have unfold: "New rt config blocks =
      (case e of Some x \<Rightarrow> Some (None, Some x) | None \<Rightarrow> New_mode (?m0\<lparr>Leaves := ls\<rparr>))"
    unfolding New_def Let_def using n2 guard lg by (cases "RunInParallel ?c") simp_all
  show ?thesis
  proof (cases e)
    case (Some x)
    with unfold e show ?thesis by (simp add: New_ok_def Let_def)
  next
    case None
    with v have ls: "ls = ?leaves" by simp
    let ?m = "?m0\<lparr>Leaves := ?leaves\<rparr>"
    have len: "length ?leaves = length blocks" by (simp add: New_leaves_def)
    have "\<exists>r. New_mode ?m = Some r \<and>
      (snd r = None \<longleftrightarrow>
         (Mode (Config ?m) = ModeProofGen \<or> Mode (Config ?m) = ModeTreeBuild \<or>
          Mode (Config ?m) = ModeProofGenAndTreeBuild) \<and>
         levels_ok (hashPair (Config ?m)) (Leaves ?m) (Depth ?m) \<and>
         root_ok (hashPair (Config ?m)) (Leaves ?m) (Depth ?m)) \<and>
      (snd r = None \<longrightarrow> fst r = Some
         (?m\<lparr>leafMap := (if Mode (Config ?m) = ModeProofGen then Map.empty else index_of (Leaves ?m)),
            nodes := (if Mode (Config ?m) = ModeProofGen then []
                      else map (level (hashPair (Config ?m)) (Leaves ?m)) [0 ..< Depth ?m]),
            Root := root_of (hashPair (Config ?m)) (Leaves ?m) (Depth ?m),
            Proofs := (if Mode (Config ?m) = ModeTreeBuild then []
                       else map (proof_of (hashPair (Config ?m)) (Leaves ?m) (Depth ?m))
                              [0 ..< length (Leaves ?m)])\<rparr>))"
      by (rule New_mode_eq) (use rd cpu f len n2 in simp_all)
    then obtain r where r: "New_mode ?m = Some r"
      and r1raw: "snd r = None \<longleftrightarrow>
         (Mode (Config ?m) = ModeProofGen \<or> Mode (Config ?m) = ModeTreeBuild \<or>
          Mode (Config ?m) = ModeProofGenAndTreeBuild) \<and>
         levels_ok (hashPair (Config ?m)) (Leaves ?m) (Depth ?m) \<and>
         root_ok (hashPair (Config ?m)) (Leaves ?m) (Depth ?m)"
      and r2raw: "snd r = None \<longrightarrow> fst r = Some
         (?m\<lparr>leafMap := (if Mode (Config ?m) = ModeProofGen then Map.empty else index_of (Leaves ?m)),
            nodes := (if Mode (Config ?m) = ModeProofGen then []
                      else map (level (hashPair (Config ?m)) (Leaves ?m)) [0 ..< Depth ?m]),
            Root := root_of (hashPair (Config ?m)) (Leaves ?m) (Depth ?m),
            Proofs := (if Mode (Config ?m) = ModeTreeBuild then []
                       else map (proof_of (hashPair (Config ?m)) (Leaves ?m) (Depth ?m))
                              [0 ..< length (Leaves ?m)])\<rparr>)"
      by (elim exE conjE)
    have r1: "snd r = None \<longleftrightarrow>
         (Mode ?c = ModeProofGen \<or> Mode ?c = ModeTreeBuild \<or> Mode ?c = ModeProofGenAndTreeBuild) \<and>
         levels_ok (hashPair ?c) ?leaves (Depth ?m0) \<and> root_ok (hashPair ?c) ?leaves (Depth ?m0)"
      using r1raw by simp
    have r2: "snd r = None \<longrightarrow> fst r = Some
         (?m0\<lparr>leafMap := (if Mode ?c = ModeProofGen then Map.empty else index_of ?leaves),
            nodes := (if Mode ?c = ModeProofGen then []
                      else map (level (hashPair ?c) ?leaves) [0 ..< Depth ?m0]),
            Root := root_of (hashPair ?c) ?leaves (Depth ?m0),
            Leaves := ?leaves,
            Proofs := (if Mode ?c = ModeTreeBuild then []
                       else map (proof_of (hashPair ?c) ?leaves (Depth ?m0)) [0 ..< length ?leaves])\<rparr>)"
      using r2raw by simp
    have ok: "New_ok rt config blocks \<longleftrightarrow> snd r = None"
      using r1 e None unfolding New_ok_def Let_def New_H_def by simp
    have sp: "snd r = None \<longrightarrow> fst r = Some (New_spec rt config blocks)"
      using r2 unfolding New_spec_def Let_def New_H_def by simp
    from unfold None ls r ok sp show ?thesis by simp
  qed
qed

lemma New_success:
  assumes "New rt config blocks = Some (Some m, None)"
  shows "2 \<le> length blocks" and "New_ok rt config blocks" and "m = New_spec rt config blocks"
proof -
  show n2: "2 \<le> length blocks"
  proof (rule ccontr)
    assume "\<not> 2 \<le> length blocks"
    then have "New rt config blocks = Some (None, Some ErrInvalidNumOfDataBlocks)"
      by (simp add: New_def)
    with assms show False by simp
  qed
  let ?c = "Config (New_init rt config blocks)"
  have cpu: "RunInParallel ?c \<longrightarrow> 0 < NumRoutines ?c"
  proof (rule ccontr)
    assume "\<not> (RunInParallel ?c \<longrightarrow> 0 < NumRoutines ?c)"
    then have "New rt config blocks = None" using n2 by (simp add: New_def Let_def)
    with assms show False by simp
  qed
  from New_eq [OF n2 cpu] assms show "New_ok rt config blocks" and "m = New_spec rt config blocks"
    by auto
qed

lemma New_no_error:
  assumes "New rt config blocks = Some (mo, None)"
  shows "mo = Some (New_spec rt config blocks)"
proof -
  have n2: "2 \<le> length blocks"
  proof (rule ccontr)
    assume "\<not> 2 \<le> length blocks"
    then have "New rt config blocks = Some (None, Some ErrInvalidNumOfDataBlocks)"
      by (simp add: New_def)
    with assms show False by simp
  qed
  let ?c = "Config (New_init rt config blocks)"
  have cpu: "RunInParallel ?c \<longrightarrow> 0 < NumRoutines ?c"
  proof (rule ccontr)
    assume "\<not> (RunInParallel ?c \<longrightarrow> 0 < NumRoutines ?c)"
    then have "New rt config blocks = None" using n2 by (simp add: New_def Let_def)
    with assms show False by simp
  qed
  from New_eq [OF n2 cpu] assms show ?thesis by auto
qed

lemma New_returns:
  assumes "2 \<le> length blocks"
    and "RunInParallel (Config (New_init rt config blocks)) \<longrightarrow>
         0 < NumRoutines (Config (New_init rt config blocks))"
    and "New_ok rt config blocks"
  shows "New rt config blocks = Some (Some (New_spec rt config blocks), None)"
proof -
  from New_eq [OF assms(1,2)] obtain r where r: "New rt config blocks = Some r"
    and r1: "snd r = None \<longleftrightarrow> New_ok rt config blocks"
    and r2: "snd r = None \<longrightarrow> fst r = Some (New_spec rt config blocks)"
    by (elim exE conjE)
  from r1 r2 assms(3) have "r = (Some (New_spec rt config blocks), None)"
    by (cases r) simp
  with r show ?thesis by simp
qed

lemma sample_New_2_True:
  "New sample_rt (Some (sample_config 2 True)) sample_blocks = Some (Some (sample_tree 2 True), None)"
  unfolding sample_tree_def by (rule New_returns) code_simp+

lemma New_spec_fields:
  "Config (New_spec rt config blocks) = Config (New_init rt config blocks)"
  "Depth (New_spec rt config blocks) = bits_Len (length blocks - 1)"
  "NumLeaves (New_spec rt config blocks) = length blocks"
  "Leaves (New_spec rt config blocks) = New_leaves rt config blocks"
  "Root (New_spec rt config blocks) =
     root_of (New_H rt config blocks) (New_leaves rt config blocks) (bits_Len (length blocks - 1))"
  by (simp_all add: New_spec_def Let_def New_init_fields)

text \<open>
  C9. When \<open>New\<close> returns a tree and no error, there are at least two blocks, the depth of
  the tree is the bit length of the number of blocks minus one, and it is the least \<open>d\<close>
  with \<open>2 ^ d\<close> at least the number of blocks.
\<close>

theorem Depth_bit_length:
  assumes "New rt config blocks = Some (Some m, None)"
  shows "2 \<le> length blocks \<and> Depth m = bits_Len (length blocks - 1) \<and>
         length blocks \<le> 2 ^ Depth m \<and> (\<forall>d. length blocks \<le> 2 ^ d \<longrightarrow> Depth m \<le> d)"
proof -
  from New_success [OF assms] have n2: "2 \<le> length blocks"
    and m: "m = New_spec rt config blocks" by simp_all
  let ?n = "length blocks - 1"
  have D: "Depth m = bits_Len ?n" using m by (simp add: New_spec_fields)
  have pos: "0 < ?n" using n2 by simp
  from bits_Len_bounds [OF pos] have lo: "2 ^ (bits_Len ?n - 1) \<le> ?n" and hi: "?n < 2 ^ bits_Len ?n"
    by simp_all
  have up: "length blocks \<le> 2 ^ Depth m" using hi n2 D by simp
  have least: "Depth m \<le> d" if d: "length blocks \<le> 2 ^ d" for d
  proof (rule ccontr)
    assume "\<not> Depth m \<le> d"
    then have "d \<le> bits_Len ?n - 1" using D by simp
    then have "(2::nat) ^ d \<le> 2 ^ (bits_Len ?n - 1)" by (rule power_increasing) simp
    from this lo have "2 ^ d \<le> ?n" by (rule order_trans)
    with d n2 show False by simp
  qed
  from n2 D up least show ?thesis by blast
qed

theorem Depth_bit_length_witness:
  "New sample_rt (Some (sample_config 2 True)) sample_blocks = Some (Some (sample_tree 2 True), None) \<and>
   length sample_blocks = 5 \<and> Depth (sample_tree 2 True) = 3"
proof -
  have b: "bits_Len (length sample_blocks - 1) = 3" by code_simp
  have l: "length sample_blocks = 5" by code_simp
  from Depth_bit_length [OF sample_New_2_True] b l sample_New_2_True show ?thesis by simp
qed

text \<open>
  C10. When \<open>New\<close> returns a tree and no error, in any mode, \<open>Leaves\<close> has one entry for
  each block, in the order of the blocks and without the duplicate that balances an odd
  level: entry \<open>i\<close> is the digest that \<open>leafFromBlock\<close> gives for block \<open>i\<close>, and
  \<open>NumLeaves\<close> is the number of blocks.
\<close>

theorem Leaves_unchanged:
  assumes "New rt config blocks = Some (Some m, None)"
  shows "length (Leaves m) = length blocks \<and> NumLeaves m = length blocks \<and>
         (\<forall>i<length blocks. leafFromBlock (blocks ! i) (Config m) = Some (Inr (Leaves m ! i)))"
proof -
  from New_success [OF assms] have ok: "New_ok rt config blocks"
    and m: "m = New_spec rt config blocks" by simp_all
  let ?c = "Config (New_init rt config blocks)"
  have c: "Config m = ?c" and n: "NumLeaves m = length blocks"
    and l: "Leaves m = map (leaf_of ?c) blocks"
    using m by (simp_all add: New_spec_fields New_leaves_def)
  have "leafFromBlock (blocks ! i) ?c = Some (Inr (leaf_of ?c (blocks ! i)))"
    if "i < length blocks" for i
  proof -
    from ok that have "leaf_ok ?c (blocks ! i)"
      by (simp add: New_ok_def Let_def list_all_length)
    then show ?thesis
      by (auto simp: leaf_ok_def leaf_of_def split: option.splits sum.splits)
  qed
  with c n l show ?thesis by simp
qed

theorem Leaves_unchanged_witness:
  "New sample_rt (Some (sample_config 0 False)) sample_blocks = Some (Some (sample_tree 0 False), None) \<and>
   length (Leaves (sample_tree 0 False)) = 5 \<and> NumLeaves (sample_tree 0 False) = 5 \<and>
   Leaves (sample_tree 0 False) = [[1, 10], [1, 20], [1, 30], [1, 40], [1, 50]]"
proof -
  have n: "New sample_rt (Some (sample_config 0 False)) sample_blocks = Some (Some (sample_tree 0 False), None)"
    unfolding sample_tree_def by (rule New_returns) code_simp+
  have l: "length sample_blocks = 5" by code_simp
  have v: "Leaves (sample_tree 0 False) = [[1, 10], [1, 20], [1, 30], [1, 40], [1, 50]]" by code_simp
  from Leaves_unchanged [OF n] l v n show ?thesis by simp
qed

end
